theory Spec2Isabelle
  imports Main "HOL-Library.Word" "HOL-Library.Multiset" "HOL-Library.AList"
begin

unbundle bit_operations_syntax

section \<open>Data model of tunnel.go\<close>

text \<open>
  Go's \<open>int\<close> is modelled as \<open>int\<close>; the only place where its width (64 bits is
  assumed) is visible is the range check of \<open>strconv.Atoi\<close>. A Go \<open>string\<close> is a
  sequence of bytes, here a \<open>string\<close> (a list of 8-bit \<open>char\<close>s), and \<open>len\<close> is
  \<open>length\<close>. \<open>time.Time\<close> and \<open>time.Duration\<close> are integers (nanoseconds).

  The struct \<open>fragment\<close>. Its fields \<open>id\<close> and \<open>totalSize\<close> are written \<open>fg_id\<close> and
  \<open>fg_totalSize\<close>: \<open>id\<close> is the identity function of HOL and \<open>totalSize\<close> is also a
  field of \<open>fragmentList\<close>.
\<close>

record fragment =
  fg_id :: string
  fg_totalSize :: int
  offset :: int
  data :: string

text \<open>
  The struct \<open>fragmentList\<close>. The Go map \<open>map[int]fragment\<close> is an association
  list: \<open>AList.update\<close> stores at a key (replacing the value of a key that is
  present, appending otherwise). The order of the list has no meaning: every \<open>range\<close>
  loop over the map runs in an order chosen by the Go runtime, which the model takes
  as an argument of type \<open>range_order\<close> and applies to the list before iterating.
\<close>

record fragmentList =
  totalSize :: int
  fragments :: "(int \<times> fragment) list"
  expiresAt :: int

type_synonym range_order = "(int \<times> fragment) list \<Rightarrow> (int \<times> fragment) list"

text \<open>A \<open>range_order\<close> the runtime can choose visits every entry exactly once.\<close>

definition is_range_order :: "range_order \<Rightarrow> bool" where
  "is_range_order ord \<longleftrightarrow> (\<forall>xs. mset (ord xs) = mset xs)"

text \<open>
  The struct \<open>tunnel\<close>. A channel is the list of the values sent on it and not yet
  received, oldest first. A channel has room for 256 values and a send on a full
  channel blocks. \<open>ServeDNS\<close> is modelled with the blocking of its send on \<open>domains\<close>.
  The send on \<open>Messages\<close> in \<open>handleDomain\<close> is an append: there a full channel only
  delays the same step, under the lock, until a message is received.
  \<open>fgListsLock\<close> and \<open>Cancel\<close> have no counterpart: every operation below is one
  critical section, run to its end.
\<close>

record tunnel =
  Messages :: "string list"
  fgLists :: "string \<rightharpoonup> fragmentList"
  topDomain :: string
  domains :: "string list"

text \<open>
  Errors are values. \<open>NumError\<close> is \<open>*strconv.NumError\<close> (its \<open>Err\<close> field,
  \<open>ErrSyntax\<close> or \<open>ErrRange\<close>, is only ever logged), \<open>CorruptInputError\<close> is the
  error of \<open>encoding/base32\<close> (its position likewise). The other three are the
  \<open>fmt.Errorf\<close> values of tunnel.go with their arguments.
\<close>

datatype error =
    NoTopDomain
  | TooFewLabels nat
  | NumError
  | OffsetOutOfRange int int
  | CorruptInputError

text \<open>The run-time panics the code can raise; a panic in a goroutine ends the process.\<close>

datatype panic = MakesliceLenOutOfRange | SliceBoundsOutOfRange

datatype 'a outcome = Returned 'a | Failed error | Panicked panic

definition newTunnel :: "string \<Rightarrow> tunnel" where
  "newTunnel td = \<lparr>Messages = [], fgLists = Map.empty, topDomain = td, domains = []\<rparr>"

section \<open>Library functions used by parseDomain\<close>

text \<open>\<open>strings.HasSuffix\<close>, \<open>strings.TrimSuffix\<close>, \<open>strings.Split\<close> with a one-byte
  separator and \<open>strings.Join\<close> with the empty separator (\<open>concat\<close>).\<close>

definition HasSuffix :: "string \<Rightarrow> string \<Rightarrow> bool" where
  "HasSuffix s suffix \<longleftrightarrow>
     length s \<ge> length suffix \<and> drop (length s - length suffix) s = suffix"

definition TrimSuffix :: "string \<Rightarrow> string \<Rightarrow> string" where
  "TrimSuffix s suffix =
     (if HasSuffix s suffix then take (length s - length suffix) s else s)"

fun Split :: "string \<Rightarrow> char \<Rightarrow> string list" where
  "Split [] sep = [[]]"
| "Split (c # cs) sep =
     (if c = sep then [] # Split cs sep
      else (case Split cs sep of [] \<Rightarrow> [[c]] | l # ls \<Rightarrow> (c # l) # ls))"

text \<open>
  \<open>strconv.Atoi\<close> for a 64-bit \<open>int\<close>: an optional sign, then at least one decimal
  digit and nothing else; the value has to lie in the range of \<open>int\<close>. A negative
  number is a value like any other.
\<close>

definition digitVal :: "char \<Rightarrow> nat option" where
  "digitVal c = (let n = (of_char c :: nat) in if 48 \<le> n \<and> n \<le> 57 then Some (n - 48) else None)"

fun digitsValue :: "int \<Rightarrow> string \<Rightarrow> int option" where
  "digitsValue n [] = Some n"
| "digitsValue n (c # cs) =
     (case digitVal c of None \<Rightarrow> None | Some d \<Rightarrow> digitsValue (n * 10 + int d) cs)"

definition Atoi :: "string \<Rightarrow> error + int" where
  "Atoi s =
     (case s of
        [] \<Rightarrow> Inl NumError
      | c # cs \<Rightarrow>
          (let body = (if c = CHR ''-'' \<or> c = CHR ''+'' then cs else s) in
           if body = [] then Inl NumError
           else (case digitsValue 0 body of
                   None \<Rightarrow> Inl NumError
                 | Some n \<Rightarrow>
                     (let v = (if c = CHR ''-'' then - n else n) in
                      if - (2 ^ 63) \<le> v \<and> v < 2 ^ 63 then Inr v else Inl NumError))))"

section \<open>parseDomain\<close>

definition parseDomain :: "string \<Rightarrow> string \<Rightarrow> error + fragment" where
  "parseDomain td domain =
     (if \<not> HasSuffix domain (CHR ''.'' # td) then Inl NoTopDomain
      else
        (let payload = TrimSuffix domain (CHR ''.'' # td);
             labels = Split payload (CHR ''.'')
         in if length labels < 4 then Inl (TooFewLabels (length labels))
            else
              (case Atoi (labels ! 1) of
                 Inl err \<Rightarrow> Inl err
               | Inr tsize \<Rightarrow>
                   (case Atoi (labels ! 2) of
                      Inl err \<Rightarrow> Inl err
                    | Inr off \<Rightarrow>
                        Inr \<lparr>fg_id = labels ! 0, fg_totalSize = tsize, offset = off,
                             data = concat (drop 3 labels)\<rparr>))))"

section \<open>The base32 decoder\<close>

text \<open>
  \<open>decoder\<close> is \<open>base32.NewEncoding("abcdefghijklmnopqrstuvwxyz234567").WithPadding('0')\<close>.
  \<open>encodeStd\<close> is the alphabet, \<open>decodeMap\<close> the table \<open>NewEncoding\<close> builds from
  it (\<open>0xFF\<close> for a byte outside the alphabet), and \<open>readQuantum\<close>, \<open>packQuantum\<close>
  and \<open>decode\<close> follow \<open>Encoding.decode\<close> of the standard library: the inner loop
  that reads up to eight symbols or the padding, the \<open>switch\<close> that packs them into
  up to five bytes, and the outer loop. \<open>DecodeString\<close> first removes every CR and
  LF. The bytes are \<open>8 word\<close>s, so the shifts lose their high bits as in Go.
\<close>

definition encodeStd :: string where
  "encodeStd = ''abcdefghijklmnopqrstuvwxyz234567''"

definition padChar :: char where
  "padChar = CHR ''0''"

fun IndexByte :: "string \<Rightarrow> char \<Rightarrow> nat option" where
  "IndexByte [] c = None"
| "IndexByte (x # xs) c = (if x = c then Some 0 else map_option Suc (IndexByte xs c))"

definition decodeMap :: "char \<Rightarrow> 8 word" where
  "decodeMap c = (case IndexByte encodeStd c of None \<Rightarrow> 0xFF | Some i \<Rightarrow> of_nat i)"

text \<open>\<open>readQuantum dbuf src\<close>: the inner loop with \<open>j = length dbuf\<close>; it returns
  the symbols read (\<open>dlen\<close> is their number), the rest of the input and \<open>end\<close>.\<close>

fun readQuantum :: "8 word list \<Rightarrow> string \<Rightarrow> error + (8 word list \<times> string \<times> bool)" where
  "readQuantum dbuf [] =
     (if length dbuf < 8 then Inl CorruptInputError else Inr (dbuf, [], False))"
| "readQuantum dbuf (c # src) =
     (if length dbuf < 8 then
        (if c = padChar \<and> 2 \<le> length dbuf \<and> length src < 8 then
           (if length src + length dbuf < 8 - 1 then Inl CorruptInputError
            else if \<not> list_all (\<lambda>x. x = padChar) (take (8 - 1 - length dbuf) src)
              then Inl CorruptInputError
            else if length dbuf = 1 \<or> length dbuf = 3 \<or> length dbuf = 6
              then Inl CorruptInputError
            else Inr (dbuf, src, True))
         else if decodeMap c = 0xFF then Inl CorruptInputError
         else readQuantum (dbuf @ [decodeMap c]) src)
      else Inr (dbuf, c # src, False))"

definition packQuantum :: "8 word list \<Rightarrow> string" where
  "packQuantum dbuf =
     (let d = dbuf @ replicate (8 - length dbuf) 0;
          dlen = length dbuf;
          dst = [push_bit 3 (d ! 0) OR drop_bit 2 (d ! 1),
                 push_bit 6 (d ! 1) OR push_bit 1 (d ! 2) OR drop_bit 4 (d ! 3),
                 push_bit 4 (d ! 3) OR drop_bit 1 (d ! 4),
                 push_bit 7 (d ! 4) OR push_bit 2 (d ! 5) OR drop_bit 3 (d ! 6),
                 push_bit 5 (d ! 6) OR (d ! 7)];
          n = (if dlen = 8 then 5 else if dlen = 7 then 4 else if dlen = 5 then 3
               else if dlen = 4 then 2 else if dlen = 2 then 1 else 0)
      in map (\<lambda>w. char_of (unat w)) (take n dst))"

lemma readQuantum_rest:
  "readQuantum dbuf src = Inr (d, rest, e) \<Longrightarrow>
     length rest \<le> length src \<and> (length dbuf < 8 \<longrightarrow> length rest < length src)"
proof (induction dbuf src rule: readQuantum.induct)
  case (1 dbuf)
  then show ?case by (simp split: if_splits)
next
  case (2 dbuf c src)
  then show ?case by (fastforce split: if_splits)
qed

function decode :: "string \<Rightarrow> error + string" where
  "decode src =
     (if src = [] then Inr []
      else (case readQuantum [] src of
              Inl err \<Rightarrow> Inl err
            | Inr (dbuf, rest, end) \<Rightarrow>
                if end then Inr (packQuantum dbuf)
                else (case decode rest of
                        Inl err \<Rightarrow> Inl err
                      | Inr out \<Rightarrow> Inr (packQuantum dbuf @ out))))"
  by pat_completeness auto
termination
  by (relation "measure length") (auto dest!: readQuantum_rest)

declare decode.simps [simp del]

definition DecodeString :: "string \<Rightarrow> error + string" where
  "DecodeString s = decode (filter (\<lambda>b. b \<noteq> CHR 0x0D \<and> b \<noteq> CHR 0x0A) s)"

section \<open>assemble\<close>

text \<open>
  \<open>copy dst src\<close> is the content of \<open>dst\<close> after Go's \<open>copy(dst, src)\<close>: the first
  \<open>min (len dst) (len src)\<close> bytes come from \<open>src\<close>. \<open>copyAt buf off src\<close> is the
  content of \<open>buf\<close> after \<open>copy(buf[off:], src)\<close>, where \<open>0 \<le> off \<le> len buf\<close>.
\<close>

definition copy :: "string \<Rightarrow> string \<Rightarrow> string" where
  "copy dst src = take (length dst) src @ drop (length src) dst"

definition copyAt :: "string \<Rightarrow> nat \<Rightarrow> string \<Rightarrow> string" where
  "copyAt buf off src = take off buf @ copy (drop off buf) src"

text \<open>
  The loop of \<open>assemble\<close> over the entries in the order of the runtime. The slice
  expression \<open>buf[f.offset:]\<close> panics unless \<open>0 \<le> f.offset \<le> len(buf)\<close>.
\<close>

fun assembleLoop :: "int \<Rightarrow> string \<Rightarrow> (int \<times> fragment) list \<Rightarrow> string outcome" where
  "assembleLoop tsize buf [] = Returned buf"
| "assembleLoop tsize buf ((k, f) # rest) =
     (if offset f \<ge> tsize then Failed (OffsetOutOfRange (offset f) tsize)
      else if offset f < 0 \<or> offset f > int (length buf) then Panicked SliceBoundsOutOfRange
      else assembleLoop tsize (copyAt buf (nat (offset f)) (data f)) rest)"

text \<open>\<open>make([]byte, n)\<close> panics for a negative \<open>n\<close>; otherwise the buffer is \<open>n\<close> zero
  bytes. (A size too large to allocate is left out: \<open>assemble\<close> is called only when
  at least \<open>totalSize\<close> bytes of data are stored.)\<close>

definition assemble :: "range_order \<Rightarrow> fragmentList \<Rightarrow> string outcome" where
  "assemble ord fl =
     (if totalSize fl < 0 then Panicked MakesliceLenOutOfRange
      else (case assembleLoop (totalSize fl) (replicate (nat (totalSize fl)) (CHR 0x00))
                   (ord (fragments fl)) of
              Failed err \<Rightarrow> Failed err
            | Panicked p \<Rightarrow> Panicked p
            | Returned buf \<Rightarrow>
                (case DecodeString buf of
                   Inl err \<Rightarrow> Failed err
                 | Inr dec \<Rightarrow> Returned dec)))"

section \<open>listenDomains\<close>

text \<open>
  \<open>handleDomain\<close> is the function literal that \<open>listenDomains\<close> runs, under the lock,
  for each domain it receives. \<open>now\<close> is what \<open>time.Now()\<close> returns (the reading at
  the creation of an entry is overwritten by the one after the insertion, so one
  value is enough), \<open>ordSum\<close> and \<open>ordAsm\<close> are the orders of the two \<open>range\<close> loops.
  An error is logged and the function returns; the log is not part of the state.
\<close>

definition handleDomain ::
  "int \<Rightarrow> int \<Rightarrow> range_order \<Rightarrow> range_order \<Rightarrow> string \<Rightarrow> tunnel \<Rightarrow> tunnel outcome" where
  "handleDomain expiration now ordSum ordAsm domain tun =
     (case parseDomain (topDomain tun) domain of
        Inl err \<Rightarrow> Returned tun
      | Inr fg \<Rightarrow>
          (let fgList0 = (case fgLists tun (fg_id fg) of
                            None \<Rightarrow> \<lparr>totalSize = 0, fragments = [], expiresAt = now + expiration\<rparr>
                          | Some fl \<Rightarrow> fl);
               fgList = fgList0\<lparr>totalSize := fg_totalSize fg,
                                fragments := AList.update (offset fg) fg (fragments fgList0),
                                expiresAt := now + expiration\<rparr>;
               tun1 = tun\<lparr>fgLists := (fgLists tun)(fg_id fg \<mapsto> fgList)\<rparr>;
               totalBytes = foldl (\<lambda>n (k, f). n + int (length (data f))) 0
                              (ordSum (fragments fgList))
           in if totalBytes \<ge> totalSize fgList then
                (case assemble ordAsm fgList of
                   Failed err \<Rightarrow> Returned tun1
                 | Panicked p \<Rightarrow> Panicked p
                 | Returned msg \<Rightarrow>
                     Returned (tun1\<lparr>Messages := Messages tun1 @ [msg],
                                    fgLists := (fgLists tun1)(fg_id fg := None)\<rparr>))
              else Returned tun1))"

text \<open>
  The loop of \<open>listenDomains\<close> on the sequence of domains received from the channel
  \<open>domains\<close>, each with the clock reading and the two range orders of its turn. A
  panic ends the loop.
\<close>

type_synonym reception = "int \<times> range_order \<times> range_order \<times> string"

fun listenDomains :: "int \<Rightarrow> reception list \<Rightarrow> tunnel \<Rightarrow> tunnel outcome" where
  "listenDomains expiration [] tun = Returned tun"
| "listenDomains expiration ((now, ordSum, ordAsm, domain) # rs) tun =
     (case handleDomain expiration now ordSum ordAsm domain tun of
        Returned tun' \<Rightarrow> listenDomains expiration rs tun'
      | Failed err \<Rightarrow> Failed err
      | Panicked p \<Rightarrow> Panicked p)"

section \<open>removeExpiredMessages\<close>

text \<open>What one tick of the ticker does to the tunnel, \<open>now\<close> being \<open>time.Now()\<close>:
  every entry whose \<open>expiresAt\<close> is before \<open>now\<close> is deleted.\<close>

definition removeExpiredMessages :: "int \<Rightarrow> tunnel \<Rightarrow> tunnel" where
  "removeExpiredMessages now tun =
     tun\<lparr>fgLists := (\<lambda>id. case fgLists tun id of
                            None \<Rightarrow> None
                          | Some fgList \<Rightarrow> if expiresAt fgList < now then None else Some fgList)\<rparr>"

section \<open>ServeDNS\<close>











section \<open>The sender\<close>

text \<open>
  Modelled from the spec: the sender's encoder is not part of tunnel.go. It is the
  base32 encoding of RFC 4648 with the alphabet of \<open>decoder\<close> and the padding
  character \<open>0\<close>: five bytes become eight symbols, and a last group of one to four
  bytes becomes two, four, five or seven symbols followed by padding.
\<close>

definition quintets :: "8 word list \<Rightarrow> 8 word list" where
  "quintets bs =
     (let b = bs @ replicate (5 - length bs) 0 in
      [drop_bit 3 (b ! 0),
       (push_bit 2 (b ! 0) OR drop_bit 6 (b ! 1)) AND 0x1F,
       drop_bit 1 (b ! 1) AND 0x1F,
       (push_bit 4 (b ! 1) OR drop_bit 4 (b ! 2)) AND 0x1F,
       (push_bit 1 (b ! 2) OR drop_bit 7 (b ! 3)) AND 0x1F,
       drop_bit 2 (b ! 3) AND 0x1F,
       (push_bit 3 (b ! 3) OR drop_bit 5 (b ! 4)) AND 0x1F,
       (b ! 4) AND 0x1F])"

definition encodeGroup :: "nat \<Rightarrow> string \<Rightarrow> string" where
  "encodeGroup n bs =
     map (\<lambda>q. encodeStd ! unat q) (take n (quintets (map of_char bs))) @ replicate (8 - n) padChar"

fun EncodeToString :: "string \<Rightarrow> string" where
  "EncodeToString (a # b # c # d # e # rest) = encodeGroup 8 [a, b, c, d, e] @ EncodeToString rest"
| "EncodeToString [a, b, c, d] = encodeGroup 7 [a, b, c, d]"
| "EncodeToString [a, b, c] = encodeGroup 5 [a, b, c]"
| "EncodeToString [a, b] = encodeGroup 4 [a, b]"
| "EncodeToString [a] = encodeGroup 2 [a]"
| "EncodeToString [] = []"

text \<open>
  Modelled from the spec: the sender writes \<open>totalSize\<close> and \<open>offset\<close> as decimal
  integers (\<open>Itoa\<close>), and a fragment as the domain name
  \<open><id>.<totalSize>.<offset>.<data>.<topDomain>\<close>. \<open>chunkDomains\<close> wraps the
  chunks of a blob, cut at arbitrary places, each with the offset at which it starts.
\<close>

fun Itoa :: "nat \<Rightarrow> string" where
  "Itoa n = (if n < 10 then [char_of (48 + n)] else Itoa (n div 10) @ [char_of (48 + n mod 10)])"

declare Itoa.simps [simp del]

definition fragmentDomain :: "string \<Rightarrow> nat \<Rightarrow> nat \<Rightarrow> string \<Rightarrow> string \<Rightarrow> string" where
  "fragmentDomain ident tsize off chunk td =
     ident @ ''.'' @ Itoa tsize @ ''.'' @ Itoa off @ ''.'' @ chunk @ ''.'' @ td"

fun chunkDomains :: "string \<Rightarrow> string \<Rightarrow> nat \<Rightarrow> nat \<Rightarrow> string list \<Rightarrow> string list" where
  "chunkDomains ident td tsize off [] = []"
| "chunkDomains ident td tsize off (c # cs) =
     fragmentDomain ident tsize off c td # chunkDomains ident td tsize (off + length c) cs"

section \<open>Notions used in the statements and in the proofs\<close>

text \<open>\<open>dataBytes\<close> is the sum of the byte lengths of the data of the stored
  fragments. \<open>stored expiration now fg tun\<close> is the fragment list of \<open>fg\<close>'s id
  once \<open>handleDomain\<close> has stored \<open>fg\<close> in it at time \<open>now\<close>.\<close>

definition dataBytes :: "(int \<times> fragment) list \<Rightarrow> int" where
  "dataBytes xs = (\<Sum>(k, f)\<leftarrow>xs. int (length (data f)))"

definition stored :: "int \<Rightarrow> int \<Rightarrow> fragment \<Rightarrow> tunnel \<Rightarrow> fragmentList" where
  "stored expiration now fg tun =
     (case fgLists tun (fg_id fg) of
        None \<Rightarrow> \<lparr>totalSize = fg_totalSize fg, fragments = [(offset fg, fg)],
                  expiresAt = now + expiration\<rparr>
      | Some fl \<Rightarrow> fl\<lparr>totalSize := fg_totalSize fg,
                       fragments := AList.update (offset fg) fg (fragments fl),
                       expiresAt := now + expiration\<rparr>)"

text \<open>
  \<open>chunkFragments\<close> are the fragments that the domains of \<open>chunkDomains\<close> stand
  for, \<open>entries\<close> the map that holds the fragments of a list at their offsets,
  stored one after the other, and \<open>fits blob f\<close> says that the fragment \<open>f\<close> lies
  inside \<open>blob\<close> and carries the bytes that \<open>blob\<close> has at its offset.
\<close>

fun chunkFragments :: "string \<Rightarrow> nat \<Rightarrow> nat \<Rightarrow> string list \<Rightarrow> fragment list" where
  "chunkFragments ident tsize off [] = []"
| "chunkFragments ident tsize off (c # cs) =
     \<lparr>fg_id = ident, fg_totalSize = int tsize, offset = int off, data = c\<rparr> #
     chunkFragments ident tsize (off + length c) cs"

definition entries :: "fragment list \<Rightarrow> (int \<times> fragment) list" where
  "entries fs = map (\<lambda>f. (offset f, f)) fs"

definition fits :: "string \<Rightarrow> fragment \<Rightarrow> bool" where
  "fits blob f \<longleftrightarrow>
     0 \<le> offset f \<and> offset f < int (length blob) \<and>
     nat (offset f) + length (data f) \<le> length blob \<and>
     data f = take (length (data f)) (drop (nat (offset f)) blob)"

text \<open>
  \<open>domainOf\<close> is the domain of a reception, and \<open>fairOrders\<close> says that its two
  range orders are orders the runtime can choose. \<open>pend tun ident tsize fs e\<close> is the
  tunnel \<open>tun\<close> in which the list of \<open>ident\<close> holds the fragments \<open>fs\<close> (no list
  when there is none).
\<close>

definition domainOf :: "reception \<Rightarrow> string" where
  "domainOf r = (case r of (now, ordSum, ordAsm, domain) \<Rightarrow> domain)"

definition fairOrders :: "reception \<Rightarrow> bool" where
  "fairOrders r = (case r of (now, ordSum, ordAsm, domain) \<Rightarrow>
                     is_range_order ordSum \<and> is_range_order ordAsm)"

definition pend :: "tunnel \<Rightarrow> string \<Rightarrow> int \<Rightarrow> fragment list \<Rightarrow> int \<Rightarrow> tunnel" where
  "pend tun ident tsize fs e =
     tun\<lparr>fgLists := (fgLists tun)(ident :=
        (if fs = [] then None
         else Some \<lparr>totalSize = tsize, fragments = entries fs, expiresAt = e\<rparr>))\<rparr>"

text \<open>
  \<open>sameButExpiry\<close>: two tunnels with the same messages, the same channel contents
  and, under every id, lists with the same \<open>totalSize\<close> and the same fragments; only
  the times \<open>expiresAt\<close> may differ.
\<close>

definition sameButExpiry :: "tunnel \<Rightarrow> tunnel \<Rightarrow> bool" where
  "sameButExpiry t t' \<longleftrightarrow>
     Messages t = Messages t' \<and> topDomain t = topDomain t' \<and> domains t = domains t' \<and>
     (\<forall>id. rel_option (\<lambda>fl fl'. totalSize fl = totalSize fl' \<and> fragments fl = fragments fl')
              (fgLists t id) (fgLists t' id))"


section \<open>The decoder inverts the encoder\<close>

lemma byte_eqI:
  fixes a b :: "8 word"
  assumes "bit a 0 = bit b 0" "bit a 1 = bit b 1" "bit a 2 = bit b 2" "bit a 3 = bit b 3"
    "bit a 4 = bit b 4" "bit a 5 = bit b 5" "bit a 6 = bit b 6" "bit a 7 = bit b 7"
  shows "a = b"
proof (rule bit_word_eqI)
  fix n
  assume "n < LENGTH(8)"
  then have "n \<in> {0, 1, 2, 3, 4, 5, 6, 7}" by auto
  then show "bit a n = bit b n" using assms by (elim insertE emptyE) simp_all
qed

lemma pack_b0: "push_bit 3 (drop_bit 3 b0) OR drop_bit 2 ((push_bit 2 b0 OR drop_bit 6 b1) AND 0x1F) = (b0 :: 8 word)"
  by (rule byte_eqI; (simp add: bit_simps del: One_nat_def push_bit_Suc)?; simp?)
lemma pack_b1: "push_bit 6 ((push_bit 2 b0 OR drop_bit 6 b1) AND 0x1F) OR push_bit 1 (drop_bit 1 b1 AND 0x1F) OR drop_bit 4 ((push_bit 4 b1 OR drop_bit 4 b2) AND 0x1F) = (b1 :: 8 word)"
  by (rule byte_eqI; (simp add: bit_simps del: One_nat_def push_bit_Suc)?; simp?)
lemma pack_b2: "push_bit 4 ((push_bit 4 b1 OR drop_bit 4 b2) AND 0x1F) OR drop_bit 1 ((push_bit 1 b2 OR drop_bit 7 b3) AND 0x1F) = (b2 :: 8 word)"
  by (rule byte_eqI; (simp add: bit_simps del: One_nat_def push_bit_Suc)?; simp?)
lemma pack_b3: "push_bit 7 ((push_bit 1 b2 OR drop_bit 7 b3) AND 0x1F) OR push_bit 2 (drop_bit 2 b3 AND 0x1F) OR drop_bit 3 ((push_bit 3 b3 OR drop_bit 5 b4) AND 0x1F) = (b3 :: 8 word)"
  by (rule byte_eqI; (simp add: bit_simps del: One_nat_def push_bit_Suc)?; simp?)
lemma pack_b4: "push_bit 5 ((push_bit 3 b3 OR drop_bit 5 b4) AND 0x1F) OR (b4 AND 0x1F) = (b4 :: 8 word)"
  by (rule byte_eqI; (simp add: bit_simps del: One_nat_def push_bit_Suc)?; simp?)

lemma unat_of_char: "unat (of_char c :: 8 word) = of_char c"
proof -
  have "(of_char c :: 8 word) = of_nat (of_char c)" by (simp add: of_nat_of_char)
  then have "unat (of_char c :: 8 word) = (of_char c :: nat) mod 256" by (simp only: unat_of_nat) simp
  then show ?thesis by simp
qed

lemma char_of_unat_of_char: "char_of (unat (of_char c :: 8 word)) = c"
  by (simp add: unat_of_char)

lemma alphabet_table:
  "\<forall>n \<in> {0..<32}. decodeMap (encodeStd ! n) = of_nat n \<and> encodeStd ! n \<noteq> padChar \<and> encodeStd ! n \<noteq> CHR ''.''"
  by code_simp

lemma and31_lt: "unat ((x :: 8 word) AND 0x1F) < 32"
proof -
  have "x AND 31 \<le> 31" by (rule word_and_le1)
  then have "unat (x AND 31) \<le> unat (31 :: 8 word)" by (simp only: word_le_nat_alt)
  then show ?thesis by simp
qed

lemma drop3_lt: "unat (drop_bit 3 (x :: 8 word)) < 32"
proof -
  have "unat x < 256" using unsigned_less[of x] by simp
  moreover have "unat (drop_bit 3 x) = drop_bit 3 (unat x)" by (rule unat_drop_bit_eq)
  ultimately show ?thesis by (simp add: drop_bit_eq_div)
qed

lemma quintets_lt: "q \<in> set (quintets bs) \<Longrightarrow> unat q < 32"
  by (auto simp: quintets_def Let_def and31_lt drop3_lt)

lemma sym_ok:
  assumes "unat q < 32"
  shows "decodeMap (encodeStd ! unat q) = q" "encodeStd ! unat q \<noteq> padChar" "encodeStd ! unat q \<noteq> CHR ''.''"
        "q \<noteq> 0xFF"
  using alphabet_table assms by (auto simp: unat_gt_0 dest!: bspec[where x="unat q"])

lemma readQuantum_syms:
  "length dbuf + length qs \<le> 8 \<Longrightarrow> \<forall>q\<in>set qs. unat q < 32 \<Longrightarrow>
   readQuantum dbuf (map (\<lambda>q. encodeStd ! unat q) qs @ rest) = readQuantum (dbuf @ qs) rest"
proof (induction qs arbitrary: dbuf)
  case Nil
  then show ?case by simp
next
  case (Cons q qs)
  then have "unat q < 32" by simp
  note s = sym_ok[OF this]
  from Cons.prems have "length dbuf < 8" by simp
  then have "readQuantum dbuf (map (\<lambda>q. encodeStd ! unat q) (q # qs) @ rest) =
        readQuantum (dbuf @ [q]) (map (\<lambda>q. encodeStd ! unat q) qs @ rest)"
    using s by simp
  also have "\<dots> = readQuantum ((dbuf @ [q]) @ qs) rest"
    using Cons.prems by (intro Cons.IH) simp_all
  finally show ?case by simp
qed

lemma readQuantum_full: "length dbuf = 8 \<Longrightarrow> readQuantum dbuf rest = Inr (dbuf, rest, False)"
  by (cases rest) simp_all


lemma length_quintets: "length (quintets bs) = 8"
  by (simp add: quintets_def Let_def)

lemma readQuantum_group8:
  "readQuantum [] (encodeGroup 8 bs @ rest) = Inr (quintets (map of_char bs), rest, False)"
proof -
  have "readQuantum [] (encodeGroup 8 bs @ rest) = readQuantum ([] @ quintets (map of_char bs)) rest"
    unfolding encodeGroup_def
    by (simp only: take_all[OF eq_refl[OF length_quintets]] replicate_0 append_Nil2 diff_self_eq_0)
       (rule readQuantum_syms, auto simp: length_quintets quintets_lt)
  then show ?thesis by (simp add: readQuantum_full length_quintets)
qed

lemma readQuantum_padding:
  assumes "length dbuf = n" "n = 2 \<or> n = 4 \<or> n = 5 \<or> n = 7"
  shows "readQuantum dbuf (replicate (8 - n) padChar) = Inr (dbuf, replicate (7 - n) padChar, True)"
proof -
  from assms(2) have "replicate (8 - n) padChar = padChar # replicate (7 - n) padChar"
    by (auto simp: numeral_eq_Suc)
  then show ?thesis using assms by (auto simp: list_all_iff dest: in_set_takeD)
qed

lemma readQuantum_group:
  assumes "n = 2 \<or> n = 4 \<or> n = 5 \<or> n = 7"
  shows "readQuantum [] (encodeGroup n bs) =
           Inr (take n (quintets (map of_char bs)), replicate (7 - n) padChar, True)"
proof -
  let ?qs = "take n (quintets (map of_char bs))"
  have len: "length ?qs = n" using assms by (auto simp: length_quintets)
  have "readQuantum [] (encodeGroup n bs) = readQuantum ([] @ ?qs) (replicate (8 - n) padChar)"
    unfolding encodeGroup_def
    using assms by (intro readQuantum_syms) (auto simp: length_quintets dest!: in_set_takeD quintets_lt)
  then show ?thesis using readQuantum_padding[OF len assms] by simp
qed

lemma encodeGroup_neq_Nil: "encodeGroup 8 bs @ rest \<noteq> []" "n \<le> 8 \<Longrightarrow> encodeGroup n bs \<noteq> []"
  by (auto simp: encodeGroup_def length_quintets quintets_def Let_def)

lemma quintets_5:
  "quintets [b0, b1, b2, b3, b4] =
     [drop_bit 3 b0,
      (push_bit 2 b0 OR drop_bit 6 b1) AND 0x1F,
      drop_bit 1 b1 AND 0x1F,
      (push_bit 4 b1 OR drop_bit 4 b2) AND 0x1F,
      (push_bit 1 b2 OR drop_bit 7 b3) AND 0x1F,
      drop_bit 2 b3 AND 0x1F,
      (push_bit 3 b3 OR drop_bit 5 b4) AND 0x1F,
      b4 AND 0x1F]"
  by (simp add: quintets_def)

lemma quintets_short:
  "quintets [b0, b1, b2, b3] = quintets [b0, b1, b2, b3, 0]"
  "quintets [b0, b1, b2] = quintets [b0, b1, b2, 0, 0]"
  "quintets [b0, b1] = quintets [b0, b1, 0, 0, 0]"
  "quintets [b0] = quintets [b0, 0, 0, 0, 0]"
  by (simp_all add: quintets_def)

lemma take_quintets:
  "take 7 [q0, q1, q2, q3, q4, q5, q6, q7] = [q0, q1, q2, q3, q4, q5, q6]"
  "take 5 [q0, q1, q2, q3, q4, q5, q6, q7] = [q0, q1, q2, q3, q4]"
  "take 4 [q0, q1, q2, q3, q4, q5, q6, q7] = [q0, q1, q2, q3]"
  "take 2 [q0, q1, q2, q3, q4, q5, q6, q7] = [q0, q1]"
  by simp_all

lemma packQuantum_list:
  "packQuantum [q0, q1, q2, q3, q4, q5, q6, q7] =
     map (\<lambda>w. char_of (unat w))
       [push_bit 3 q0 OR drop_bit 2 q1, push_bit 6 q1 OR push_bit 1 q2 OR drop_bit 4 q3,
        push_bit 4 q3 OR drop_bit 1 q4, push_bit 7 q4 OR push_bit 2 q5 OR drop_bit 3 q6,
        push_bit 5 q6 OR q7]"
  "packQuantum [q0, q1, q2, q3, q4, q5, q6] =
     map (\<lambda>w. char_of (unat w))
       [push_bit 3 q0 OR drop_bit 2 q1, push_bit 6 q1 OR push_bit 1 q2 OR drop_bit 4 q3,
        push_bit 4 q3 OR drop_bit 1 q4, push_bit 7 q4 OR push_bit 2 q5 OR drop_bit 3 q6]"
  "packQuantum [q0, q1, q2, q3, q4] =
     map (\<lambda>w. char_of (unat w))
       [push_bit 3 q0 OR drop_bit 2 q1, push_bit 6 q1 OR push_bit 1 q2 OR drop_bit 4 q3,
        push_bit 4 q3 OR drop_bit 1 q4]"
  "packQuantum [q0, q1, q2, q3] =
     map (\<lambda>w. char_of (unat w))
       [push_bit 3 q0 OR drop_bit 2 q1, push_bit 6 q1 OR push_bit 1 q2 OR drop_bit 4 q3]"
  "packQuantum [q0, q1] = map (\<lambda>w. char_of (unat w)) [push_bit 3 q0 OR drop_bit 2 q1]"
  by (simp_all add: packQuantum_def)

lemmas pack_bytes = pack_b0 pack_b1 pack_b2 pack_b3 pack_b4

lemma packQuantum_5: "packQuantum (quintets (map of_char [a, b, c, d, e])) = [a, b, c, d, e]"
  by (simp only: list.map quintets_5 packQuantum_list pack_bytes char_of_unat_of_char)

lemma packQuantum_4: "packQuantum (take 7 (quintets (map of_char [a, b, c, d]))) = [a, b, c, d]"
  by (simp only: list.map quintets_short quintets_5 take_quintets packQuantum_list pack_bytes
      char_of_unat_of_char)

lemma packQuantum_3: "packQuantum (take 5 (quintets (map of_char [a, b, c]))) = [a, b, c]"
  by (simp only: list.map quintets_short quintets_5 take_quintets packQuantum_list pack_bytes
      char_of_unat_of_char)

lemma packQuantum_2: "packQuantum (take 4 (quintets (map of_char [a, b]))) = [a, b]"
  by (simp only: list.map quintets_short quintets_5 take_quintets packQuantum_list pack_bytes
      char_of_unat_of_char)

lemma packQuantum_1: "packQuantum (take 2 (quintets (map of_char [a]))) = [a]"
  by (simp only: list.map quintets_short quintets_5 take_quintets packQuantum_list pack_bytes
      char_of_unat_of_char)

lemma decode_EncodeToString: "decode (EncodeToString p) = Inr p"
proof (induction p rule: EncodeToString.induct)
  case (1 a b c d e rest)
  then show ?case
    using packQuantum_5[of a b c d e]
    by (simp add: decode.simps[of "encodeGroup 8 [a, b, c, d, e] @ EncodeToString rest"]
        encodeGroup_neq_Nil readQuantum_group8)
next
  case (2 a b c d)
  then show ?case
    using packQuantum_4[of a b c d]
    by (simp add: decode.simps[of "encodeGroup 7 [a, b, c, d]"] encodeGroup_neq_Nil readQuantum_group)
next
  case (3 a b c)
  then show ?case
    using packQuantum_3[of a b c]
    by (simp add: decode.simps[of "encodeGroup 5 [a, b, c]"] encodeGroup_neq_Nil readQuantum_group)
next
  case (4 a b)
  then show ?case
    using packQuantum_2[of a b]
    by (simp add: decode.simps[of "encodeGroup 4 [a, b]"] encodeGroup_neq_Nil readQuantum_group)
next
  case (5 a)
  then show ?case
    using packQuantum_1[of a]
    by (simp add: decode.simps[of "encodeGroup 2 [a]"] encodeGroup_neq_Nil readQuantum_group)
next
  case 6
  then show ?case by (simp add: decode.simps)
qed


section \<open>parseDomain reads what the sender wrote\<close>

lemma HasSuffix_append: "HasSuffix (xs @ suf) suf"
  by (simp add: HasSuffix_def)

lemma TrimSuffix_append: "TrimSuffix (xs @ suf) suf = xs"
  by (simp add: TrimSuffix_def HasSuffix_def)

lemma Split_neq_Nil: "Split s sep \<noteq> []"
  by (induction s) (auto split: list.splits)

lemma Split_no_sep: "sep \<notin> set l \<Longrightarrow> Split l sep = [l]"
  by (induction l) auto

lemma Split_label: "sep \<notin> set l \<Longrightarrow> Split (l @ sep # rest) sep = l # Split rest sep"
  by (induction l) auto

lemma digitVal_digit: "d < 10 \<Longrightarrow> digitVal (char_of (48 + d)) = Some d"
  by (simp add: digitVal_def Let_def)

lemma digitsValue_append:
  "digitsValue n (xs @ ys) = (case digitsValue n xs of None \<Rightarrow> None | Some m \<Rightarrow> digitsValue m ys)"
  by (induction xs arbitrary: n) (auto split: option.splits)

lemma digitsValue_Itoa: "digitsValue 0 (Itoa n) = Some (int n)"
proof (induction n rule: Itoa.induct)
  case (1 n)
  show ?case
  proof (cases "n < 10")
    case True
    then show ?thesis by (simp add: Itoa.simps[of n] digitVal_digit)
  next
    case False
    then have "digitsValue 0 (Itoa (n div 10)) = Some (int (n div 10))" by (rule 1)
    moreover have "n mod 10 < 10" by simp
    moreover have "int (n div 10) * 10 + int (n mod 10) = int n"
      by (simp add: zdiv_int zmod_int)
    ultimately show ?thesis using False
      by (simp add: Itoa.simps[of n] digitsValue_append digitVal_digit)
  qed
qed

lemma digit_char_neq:
  assumes "(d::nat) < 10"
  shows "char_of (48 + d) \<noteq> CHR ''.''" "char_of (48 + d) \<noteq> CHR ''-''" "char_of (48 + d) \<noteq> CHR ''+''"
  using assms by (simp_all add: char_of_eq_iff take_bit_eq_mod)

lemma Itoa_chars: "c \<in> set (Itoa n) \<Longrightarrow> c \<noteq> CHR ''.'' \<and> c \<noteq> CHR ''-'' \<and> c \<noteq> CHR ''+''"
proof (induction n rule: Itoa.induct)
  case (1 n)
  show ?case
  proof (cases "n < 10")
    case True
    then show ?thesis using 1(2) digit_char_neq[of n] by (simp add: Itoa.simps[of n]) 
  next
    case False
    have "n mod 10 < 10" by simp
    from digit_char_neq[OF this] show ?thesis using False 1 by (auto simp add: Itoa.simps[of n]) 
  qed
qed

lemma Itoa_neq_Nil: "Itoa n \<noteq> []"
  by (subst Itoa.simps) simp

lemma Atoi_Itoa: "n < 2 ^ 63 \<Longrightarrow> Atoi (Itoa n) = Inr (int n)"
proof -
  assume n: "n < 2 ^ 63"
  obtain c cs where s: "Itoa n = c # cs" using Itoa_neq_Nil[of n] by (cases "Itoa n") auto
  then have "c \<in> set (Itoa n)" by simp
  from Itoa_chars[OF this] have c: "c \<noteq> CHR ''-''" "c \<noteq> CHR ''+''" by simp_all
  have "int n < 2 ^ 63" using n by (metis of_nat_less_iff of_nat_numeral of_nat_power)
  then show ?thesis using digitsValue_Itoa[of n] s c by (simp add: Atoi_def)
qed

lemma parseDomain_payload:
  "parseDomain td (payload @ CHR ''.'' # td) =
     (let labels = Split payload (CHR ''.'')
      in if length labels < 4 then Inl (TooFewLabels (length labels))
         else (case Atoi (labels ! 1) of
                 Inl err \<Rightarrow> Inl err
               | Inr tsize \<Rightarrow>
                   (case Atoi (labels ! 2) of
                      Inl err \<Rightarrow> Inl err
                    | Inr off \<Rightarrow>
                        Inr \<lparr>fg_id = labels ! 0, fg_totalSize = tsize, offset = off,
                             data = concat (drop 3 labels)\<rparr>)))"
  by (simp add: parseDomain_def HasSuffix_append TrimSuffix_append Let_def)

lemma parseDomain_fragmentDomain:
  assumes "CHR ''.'' \<notin> set ident" "CHR ''.'' \<notin> set chunk" "tsize < 2 ^ 63" "off < 2 ^ 63"
  shows "parseDomain td (fragmentDomain ident tsize off chunk td) =
           Inr \<lparr>fg_id = ident, fg_totalSize = int tsize, offset = int off, data = chunk\<rparr>"
proof -
  let ?payload = "ident @ CHR ''.'' # Itoa tsize @ CHR ''.'' # Itoa off @ CHR ''.'' # chunk"
  have d: "fragmentDomain ident tsize off chunk td = ?payload @ CHR ''.'' # td"
    by (simp add: fragmentDomain_def)
  have n: "CHR ''.'' \<notin> set (Itoa tsize)" "CHR ''.'' \<notin> set (Itoa off)"
    using Itoa_chars by blast+
  have "Split ?payload (CHR ''.'') = [ident, Itoa tsize, Itoa off, chunk]"
    using assms(1,2) n by (simp add: Split_label Split_no_sep)
  then show ?thesis
    unfolding d parseDomain_payload by (simp add: Atoi_Itoa[OF assms(3)] Atoi_Itoa[OF assms(4)] Let_def)
qed


section \<open>What handleDomain does with a parsed fragment\<close>

lemma foldl_totalBytes:
  "foldl (\<lambda>n (k, f). n + int (length (data f))) a xs = a + dataBytes xs"
  by (induction xs arbitrary: a) (auto simp: dataBytes_def)

lemma dataBytes_mset: "mset xs = mset ys \<Longrightarrow> dataBytes xs = dataBytes ys"
proof -
  assume "mset xs = mset ys"
  then have "mset (map (\<lambda>(k, f). int (length (data f))) xs) = mset (map (\<lambda>(k, f). int (length (data f))) ys)"
    by simp
  then have "sum_mset (mset (map (\<lambda>(k, f). int (length (data f))) xs)) = sum_mset (mset (map (\<lambda>(k, f). int (length (data f))) ys))"
    by (rule arg_cong)
  then show ?thesis unfolding dataBytes_def by (simp only: sum_mset_sum_list)
qed

lemma handleDomain_parsed:
  assumes "parseDomain (topDomain tun) domain = Inr fg"
    and "is_range_order ordSum"
  shows "handleDomain expiration now ordSum ordAsm domain tun =
     (if dataBytes (fragments (stored expiration now fg tun)) \<ge> totalSize (stored expiration now fg tun)
      then (case assemble ordAsm (stored expiration now fg tun) of
              Failed err \<Rightarrow> Returned (tun\<lparr>fgLists := (fgLists tun)(fg_id fg \<mapsto> stored expiration now fg tun)\<rparr>)
            | Panicked p \<Rightarrow> Panicked p
            | Returned msg \<Rightarrow> Returned (tun\<lparr>Messages := Messages tun @ [msg],
                                             fgLists := (fgLists tun)(fg_id fg := None)\<rparr>))
      else Returned (tun\<lparr>fgLists := (fgLists tun)(fg_id fg \<mapsto> stored expiration now fg tun)\<rparr>))"
proof -
  have st: "stored expiration now fg tun =
      (case fgLists tun (fg_id fg) of
         None \<Rightarrow> \<lparr>totalSize = 0, fragments = [], expiresAt = now + expiration\<rparr>
       | Some fl \<Rightarrow> fl)\<lparr>totalSize := fg_totalSize fg,
            fragments := AList.update (offset fg) fg
               (fragments (case fgLists tun (fg_id fg) of
                  None \<Rightarrow> \<lparr>totalSize = 0, fragments = [], expiresAt = now + expiration\<rparr>
                | Some fl \<Rightarrow> fl)),
            expiresAt := now + expiration\<rparr>"
    by (simp add: stored_def split: option.splits)
  have "foldl (\<lambda>n (k, f). n + int (length (data f))) 0 (ordSum (fragments (stored expiration now fg tun)))
      = dataBytes (fragments (stored expiration now fg tun))"
    using dataBytes_mset[of "ordSum (fragments (stored expiration now fg tun))"
        "fragments (stored expiration now fg tun)"] assms(2)
    by (simp add: foldl_totalBytes is_range_order_def)
  then show ?thesis
    unfolding handleDomain_def assms(1) st[symmetric] Let_def sum.case
    by (auto split: outcome.splits)
qed

lemma handleDomain_parse_error:
  "parseDomain (topDomain tun) domain = Inl err \<Longrightarrow>
     handleDomain expiration now ordSum ordAsm domain tun = Returned tun"
  by (simp add: handleDomain_def)


section \<open>The concrete scenario\<close>

lemma parse_msg1:
  "parseDomain ''tunnel.example.com'' ''msg1.8.0.nbuq0000.tunnel.example.com'' =
     Inr \<lparr>fg_id = ''msg1'', fg_totalSize = 8, offset = 0, data = ''nbuq0000''\<rparr>"
  by (simp add: parseDomain_def HasSuffix_def TrimSuffix_def Atoi_def digitVal_def)

lemma char_of_numeral_simps: "char_of (104 :: nat) = CHR ''h''" "char_of (105 :: nat) = CHR ''i''"
  by code_simp+

lemma DecodeString_nbuq: "DecodeString ''nbuq0000'' = Inr ''hi''"
  by (simp add: DecodeString_def decode.simps decodeMap_def encodeStd_def padChar_def
      packQuantum_def char_of_numeral_simps)

lemma range_order_single: "is_range_order ord \<Longrightarrow> ord [x] = [x]"
proof -
  assume "is_range_order ord"
  then have "mset (ord [x]) = {#x#}" by (simp add: is_range_order_def)
  then show ?thesis by simp
qed

text \<open>
  Claim C2. With the top domain \<open>tunnel.example.com\<close> and an empty store, the
  single query name \<open>msg1.8.0.nbuq0000.tunnel.example.com\<close> makes \<open>handleDomain\<close>
  send exactly one message, the payload \<open>hi\<close> (bytes 0x68 0x69), on \<open>Messages\<close>,
  and leaves no entry for \<open>msg1\<close> in \<open>fgLists\<close>: the tunnel afterwards is the
  new tunnel with that one message. This holds at every time, for every expiration
  and for every order of the two range loops.
\<close>

theorem concrete_scenario_msg1:
  assumes "is_range_order ordSum" and "is_range_order ordAsm"
  shows "handleDomain expiration now ordSum ordAsm ''msg1.8.0.nbuq0000.tunnel.example.com''
           (newTunnel ''tunnel.example.com'') =
         Returned ((newTunnel ''tunnel.example.com'')\<lparr>Messages := [''hi'']\<rparr>)"
proof -
  let ?tun = "newTunnel ''tunnel.example.com''"
  let ?fg = "\<lparr>fg_id = ''msg1'', fg_totalSize = 8, offset = 0, data = ''nbuq0000''\<rparr>"
  have p: "parseDomain (topDomain ?tun) ''msg1.8.0.nbuq0000.tunnel.example.com'' = Inr ?fg"
    by (simp only: newTunnel_def tunnel.simps parse_msg1)
  have st: "stored expiration now ?fg ?tun =
      \<lparr>totalSize = 8, fragments = [(0, ?fg)], expiresAt = now + expiration\<rparr>"
    by (simp add: stored_def newTunnel_def)
  have a: "assemble ordAsm \<lparr>totalSize = 8, fragments = [(0, ?fg)], expiresAt = now + expiration\<rparr>
             = Returned ''hi''"
    by (simp add: assemble_def range_order_single[OF assms(2)] copyAt_def copy_def
        DecodeString_nbuq)
  show ?thesis
    unfolding handleDomain_parsed[where tun="?tun" and fg="?fg" and ordAsm=ordAsm
        and ordSum=ordSum and expiration=expiration and now=now
        and domain="''msg1.8.0.nbuq0000.tunnel.example.com''", OF p assms(1)] a st
    by (simp add: dataBytes_def newTunnel_def)
qed

theorem concrete_scenario_msg1_witness:
  "is_range_order id \<and> is_range_order rev \<and>
   handleDomain 30 0 id rev ''msg1.8.0.nbuq0000.tunnel.example.com''
     (newTunnel ''tunnel.example.com'') =
   Returned \<lparr>Messages = [''hi''], fgLists = Map.empty, topDomain = ''tunnel.example.com'',
             domains = []\<rparr>"
proof -
  have 1: "is_range_order id" and 2: "is_range_order rev"
    by (simp_all add: is_range_order_def)
  show ?thesis
    using 1 2 concrete_scenario_msg1[OF 1 2, of 30 0] by (simp add: newTunnel_def)
qed

section \<open>The completion predicate\<close>

text \<open>
  Claim C4. After \<open>handleDomain\<close> has parsed a fragment and stored it, the list's
  \<open>totalSize\<close> is the one this fragment declares, and the comparison of \<open>dataBytes\<close>
  of the stored fragments with it decides alone what happens, whatever the orders of
  the range loops: below \<open>totalSize\<close> nothing is assembled or sent and the list stays
  in the map; otherwise \<open>assemble\<close> runs, and when it returns a message, the message
  is sent on \<open>Messages\<close> and the entry of the id is deleted in the same call.
\<close>

theorem completion_predicate:
  assumes "parseDomain (topDomain tun) domain = Inr fg" and "is_range_order ordSum"
  shows "totalSize (stored expiration now fg tun) = fg_totalSize fg \<and>
     handleDomain expiration now ordSum ordAsm domain tun =
     (if dataBytes (fragments (stored expiration now fg tun)) \<ge> totalSize (stored expiration now fg tun)
      then (case assemble ordAsm (stored expiration now fg tun) of
              Failed err \<Rightarrow> Returned (tun\<lparr>fgLists := (fgLists tun)(fg_id fg \<mapsto> stored expiration now fg tun)\<rparr>)
            | Panicked p \<Rightarrow> Panicked p
            | Returned msg \<Rightarrow> Returned (tun\<lparr>Messages := Messages tun @ [msg],
                                             fgLists := (fgLists tun)(fg_id fg := None)\<rparr>))
      else Returned (tun\<lparr>fgLists := (fgLists tun)(fg_id fg \<mapsto> stored expiration now fg tun)\<rparr>))"
proof -
  from handleDomain_parsed[OF assms]
  show ?thesis by (simp add: stored_def split: option.splits)
qed

lemma is_range_order_id: "is_range_order id"
  by (simp add: is_range_order_def)

lemma is_range_order_rev: "is_range_order rev"
  by (simp add: is_range_order_def)

lemma parse_msg2a:
  "parseDomain ''tunnel.example.com'' ''msg2.8.4.0000.tunnel.example.com'' =
     Inr \<lparr>fg_id = ''msg2'', fg_totalSize = 8, offset = 4, data = ''0000''\<rparr>"
  by (simp add: parseDomain_def HasSuffix_def TrimSuffix_def Atoi_def digitVal_def)

theorem completion_predicate_witness:
  "parseDomain (topDomain (newTunnel ''tunnel.example.com'')) ''msg2.8.4.0000.tunnel.example.com''
     = Inr \<lparr>fg_id = ''msg2'', fg_totalSize = 8, offset = 4, data = ''0000''\<rparr> \<and>
   is_range_order rev \<and>
   handleDomain 30 0 rev id ''msg2.8.4.0000.tunnel.example.com'' (newTunnel ''tunnel.example.com'') =
     Returned ((newTunnel ''tunnel.example.com'')\<lparr>fgLists :=
        [''msg2'' \<mapsto> \<lparr>totalSize = 8,
            fragments = [(4, \<lparr>fg_id = ''msg2'', fg_totalSize = 8, offset = 4, data = ''0000''\<rparr>)],
            expiresAt = 30\<rparr>]\<rparr>)"
proof -
  have p: "parseDomain (topDomain (newTunnel ''tunnel.example.com'')) ''msg2.8.4.0000.tunnel.example.com''
     = Inr \<lparr>fg_id = ''msg2'', fg_totalSize = 8, offset = 4, data = ''0000''\<rparr>"
    by (simp only: newTunnel_def tunnel.simps parse_msg2a)
  show ?thesis
    using p is_range_order_rev
      completion_predicate[where tun="newTunnel ''tunnel.example.com''"
        and domain="''msg2.8.4.0000.tunnel.example.com''" and ordSum=rev and ordAsm=id
        and expiration=30 and now=0, OF p is_range_order_rev]
    by (simp add: stored_def dataBytes_def newTunnel_def)
qed

section \<open>Failure of assemble\<close>

lemma readQuantum_error: "readQuantum dbuf src = Inl err \<Longrightarrow> err = CorruptInputError"
  by (induction dbuf src rule: readQuantum.induct) (auto split: if_splits)

lemma decode_error: "decode src = Inl err \<Longrightarrow> err = CorruptInputError"
proof (induction src rule: decode.induct)
  case (1 src)
  then show ?case
    by (subst (asm) (2) decode.simps)
       (auto split: if_splits sum.splits prod.splits dest: readQuantum_error)
qed

lemma assembleLoop_Failed:
  "assembleLoop tsize buf xs = Failed err \<Longrightarrow>
     \<exists>off. err = OffsetOutOfRange off tsize \<and> off \<ge> tsize \<and> off \<in> offset ` snd ` set xs"
  by (induction tsize buf xs rule: assembleLoop.induct) (auto split: if_splits)

lemma assemble_Failed:
  assumes "assemble ord fl = Failed err" and "is_range_order ord"
  shows "err = CorruptInputError \<or>
         (\<exists>off. err = OffsetOutOfRange off (totalSize fl) \<and> off \<ge> totalSize fl \<and>
                off \<in> offset ` snd ` set (fragments fl))"
proof -
  have "set (ord (fragments fl)) = set (fragments fl)"
    using assms(2) by (metis is_range_order_def set_mset_mset)
  then show ?thesis
    using assms(1) unfolding assemble_def DecodeString_def
    by (auto split: if_splits outcome.splits sum.splits dest!: decode_error assembleLoop_Failed)
qed

text \<open>
  Claim C7. When the completion predicate holds and \<open>assemble\<close> fails (with the
  error of an offset that is not below \<open>totalSize\<close>, or with the decoder's error),
  \<open>handleDomain\<close> returns normally, sends nothing, and the list stays in the map as
  it was stored; the other entries of the map are unchanged.
\<close>

theorem assemble_failure_keeps_list:
  assumes "parseDomain (topDomain tun) domain = Inr fg"
    and "is_range_order ordSum" and "is_range_order ordAsm"
    and "dataBytes (fragments (stored expiration now fg tun)) \<ge> totalSize (stored expiration now fg tun)"
    and "assemble ordAsm (stored expiration now fg tun) = Failed err"
  shows "handleDomain expiration now ordSum ordAsm domain tun =
           Returned (tun\<lparr>fgLists := (fgLists tun)(fg_id fg \<mapsto> stored expiration now fg tun)\<rparr>) \<and>
         (err = CorruptInputError \<or>
          (\<exists>off. err = OffsetOutOfRange off (fg_totalSize fg) \<and> off \<ge> fg_totalSize fg))"
proof -
  have "totalSize (stored expiration now fg tun) = fg_totalSize fg"
    by (simp add: stored_def split: option.splits)
  then show ?thesis
    using handleDomain_parsed[OF assms(1,2), of expiration now ordAsm] assms(4,5)
      assemble_Failed[OF assms(5,3)]
    by auto
qed

lemma parse_m4:
  "parseDomain ''tunnel.example.com'' ''m.4.0.nbuq.tunnel.example.com'' =
     Inr \<lparr>fg_id = ''m'', fg_totalSize = 4, offset = 0, data = ''nbuq''\<rparr>"
  by (simp add: parseDomain_def HasSuffix_def TrimSuffix_def Atoi_def digitVal_def)

lemma DecodeString_nbuq_unpadded: "DecodeString ''nbuq'' = Inl CorruptInputError"
  by (simp add: DecodeString_def decode.simps decodeMap_def encodeStd_def padChar_def)

theorem assemble_failure_keeps_list_witness:
  "parseDomain (topDomain (newTunnel ''tunnel.example.com'')) ''m.4.0.nbuq.tunnel.example.com''
     = Inr \<lparr>fg_id = ''m'', fg_totalSize = 4, offset = 0, data = ''nbuq''\<rparr> \<and>
   is_range_order id \<and> is_range_order rev \<and>
   dataBytes [(0, \<lparr>fg_id = ''m'', fg_totalSize = 4, offset = 0, data = ''nbuq''\<rparr>)] \<ge> 4 \<and>
   assemble rev \<lparr>totalSize = 4,
       fragments = [(0, \<lparr>fg_id = ''m'', fg_totalSize = 4, offset = 0, data = ''nbuq''\<rparr>)],
       expiresAt = 30\<rparr> = Failed CorruptInputError \<and>
   handleDomain 30 0 id rev ''m.4.0.nbuq.tunnel.example.com'' (newTunnel ''tunnel.example.com'') =
     Returned ((newTunnel ''tunnel.example.com'')\<lparr>fgLists :=
        [''m'' \<mapsto> \<lparr>totalSize = 4,
            fragments = [(0, \<lparr>fg_id = ''m'', fg_totalSize = 4, offset = 0, data = ''nbuq''\<rparr>)],
            expiresAt = 30\<rparr>]\<rparr>)"
proof -
  let ?tun = "newTunnel ''tunnel.example.com''"
  let ?fg = "\<lparr>fg_id = ''m'', fg_totalSize = 4, offset = 0, data = ''nbuq''\<rparr>"
  let ?fl = "\<lparr>totalSize = 4, fragments = [(0, ?fg)], expiresAt = 30\<rparr>"
  have p: "parseDomain (topDomain ?tun) ''m.4.0.nbuq.tunnel.example.com'' = Inr ?fg"
    by (simp only: newTunnel_def tunnel.simps parse_m4)
  have st: "stored 30 0 ?fg ?tun = ?fl"
    by (simp add: stored_def newTunnel_def)
  have b: "dataBytes (fragments (stored 30 0 ?fg ?tun)) \<ge> totalSize (stored 30 0 ?fg ?tun)"
    unfolding st by (simp add: dataBytes_def)
  have a: "assemble rev (stored 30 0 ?fg ?tun) = Failed CorruptInputError"
    unfolding st by (simp add: assemble_def copyAt_def copy_def DecodeString_nbuq_unpadded)
  from assemble_failure_keeps_list[where tun="?tun" and domain="''m.4.0.nbuq.tunnel.example.com''"
      and ordSum=id and ordAsm=rev and expiration=30 and now=0, OF p is_range_order_id is_range_order_rev b a]
  show ?thesis using p is_range_order_id is_range_order_rev a b unfolding st
    by (simp add: newTunnel_def)
qed

section \<open>Expiration\<close>

lemma handleDomain_expiresAt:
  assumes "handleDomain expiration now ordSum ordAsm domain tun = Returned tun'"
    and "parseDomain (topDomain tun) domain = Inr fg"
    and "fgLists tun' (fg_id fg) = Some fl"
  shows "fl = stored expiration now fg tun" and "expiresAt fl = now + expiration"
    and "Messages tun' = Messages tun"
proof -
  have e: "expiresAt (stored expiration now fg tun) = now + expiration"
    by (simp add: stored_def split: option.splits)
  have st: "stored expiration now fg tun =
      (case fgLists tun (fg_id fg) of
         None \<Rightarrow> \<lparr>totalSize = 0, fragments = [], expiresAt = now + expiration\<rparr>
       | Some fl \<Rightarrow> fl)\<lparr>totalSize := fg_totalSize fg,
            fragments := AList.update (offset fg) fg
               (fragments (case fgLists tun (fg_id fg) of
                  None \<Rightarrow> \<lparr>totalSize = 0, fragments = [], expiresAt = now + expiration\<rparr>
                | Some fl \<Rightarrow> fl)),
            expiresAt := now + expiration\<rparr>"
    by (simp add: stored_def split: option.splits)
  from assms(1) have "tun' = tun\<lparr>fgLists := (fgLists tun)(fg_id fg \<mapsto> stored expiration now fg tun)\<rparr>
      \<or> fgLists tun' (fg_id fg) = None"
    unfolding handleDomain_def assms(2) st[symmetric] Let_def sum.case
    by (auto split: if_splits outcome.splits)
  with assms(3) have t: "tun' = tun\<lparr>fgLists := (fgLists tun)(fg_id fg \<mapsto> stored expiration now fg tun)\<rparr>"
    by auto
  with assms(3) show "fl = stored expiration now fg tun" by simp
  with e show "expiresAt fl = now + expiration" by simp
  from t show "Messages tun' = Messages tun" by simp
qed

text \<open>
  Claim C8. One tick of \<open>removeExpiredMessages\<close> at time \<open>now\<close> deletes exactly the
  entries whose \<open>expiresAt\<close> is before \<open>now\<close>, keeps the others as they are and sends
  nothing. Every call of \<open>handleDomain\<close> that stores a fragment and leaves its list in
  the map sets the list's \<open>expiresAt\<close> to the time of the call plus the expiration;
  so a tick at any time later than that deletes the list, and no message is sent.
\<close>

theorem expiration_sweep:
  assumes "handleDomain expiration t ordSum ordAsm domain tun = Returned tun'"
    and "parseDomain (topDomain tun) domain = Inr fg"
    and "fgLists tun' (fg_id fg) = Some fl"
    and "t + expiration < now"
  shows "dom (fgLists (removeExpiredMessages now' tun')) =
           {id. \<exists>l. fgLists tun' id = Some l \<and> \<not> expiresAt l < now'} \<and>
         (\<forall>id \<in> dom (fgLists (removeExpiredMessages now' tun')).
            fgLists (removeExpiredMessages now' tun') id = fgLists tun' id) \<and>
         Messages (removeExpiredMessages now' tun') = Messages tun' \<and>
         expiresAt fl = t + expiration \<and>
         fgLists (removeExpiredMessages now tun') (fg_id fg) = None \<and>
         Messages (removeExpiredMessages now tun') = Messages tun"
proof -
  have d: "dom (fgLists (removeExpiredMessages now' tun')) =
           {id. \<exists>l. fgLists tun' id = Some l \<and> \<not> expiresAt l < now'}"
    by (auto simp: removeExpiredMessages_def split: option.splits if_splits)
  have k: "\<forall>id \<in> dom (fgLists (removeExpiredMessages now' tun')).
            fgLists (removeExpiredMessages now' tun') id = fgLists tun' id"
    by (auto simp: removeExpiredMessages_def split: option.splits if_splits)
  have m: "Messages (removeExpiredMessages n tun') = Messages tun'" for n
    by (simp add: removeExpiredMessages_def)
  note h = handleDomain_expiresAt[OF assms(1,2,3)]
  have "fgLists (removeExpiredMessages now tun') (fg_id fg) = None"
    using assms(3,4) h(2) by (simp add: removeExpiredMessages_def)
  with d k m h show ?thesis by simp
qed

theorem expiration_sweep_witness:
  "handleDomain 30 0 rev id ''msg2.8.4.0000.tunnel.example.com'' (newTunnel ''tunnel.example.com'') =
     Returned ((newTunnel ''tunnel.example.com'')\<lparr>fgLists :=
        [''msg2'' \<mapsto> \<lparr>totalSize = 8,
            fragments = [(4, \<lparr>fg_id = ''msg2'', fg_totalSize = 8, offset = 4, data = ''0000''\<rparr>)],
            expiresAt = 30\<rparr>]\<rparr>) \<and>
   (0::int) + 30 < 31 \<and>
   fgLists (removeExpiredMessages 31 ((newTunnel ''tunnel.example.com'')\<lparr>fgLists :=
        [''msg2'' \<mapsto> \<lparr>totalSize = 8,
            fragments = [(4, \<lparr>fg_id = ''msg2'', fg_totalSize = 8, offset = 4, data = ''0000''\<rparr>)],
            expiresAt = 30\<rparr>]\<rparr>)) ''msg2'' = None"
proof -
  let ?tun = "newTunnel ''tunnel.example.com''"
  let ?fg = "\<lparr>fg_id = ''msg2'', fg_totalSize = 8, offset = 4, data = ''0000''\<rparr>"
  let ?fl = "\<lparr>totalSize = 8, fragments = [(4, ?fg)], expiresAt = 30\<rparr>"
  let ?tun' = "?tun\<lparr>fgLists := [''msg2'' \<mapsto> ?fl]\<rparr>"
  have p: "parseDomain (topDomain ?tun) ''msg2.8.4.0000.tunnel.example.com'' = Inr ?fg"
    by (simp only: newTunnel_def tunnel.simps parse_msg2a)
  have st: "stored 30 0 ?fg ?tun = ?fl"
    by (simp add: stored_def newTunnel_def)
  have h: "handleDomain 30 0 rev id ''msg2.8.4.0000.tunnel.example.com'' ?tun = Returned ?tun'"
    using handleDomain_parsed[where tun="?tun" and domain="''msg2.8.4.0000.tunnel.example.com''"
        and ordSum=rev and ordAsm=id and expiration=30 and now=0, OF p is_range_order_rev]
    unfolding st by (simp add: dataBytes_def newTunnel_def)
  have l: "fgLists ?tun' (fg_id ?fg) = Some ?fl" by simp
  have lt: "(0::int) + 30 < 31" by simp
  from expiration_sweep[where tun="?tun" and tun'="?tun'" and fg="?fg" and fl="?fl" and now=31
      and t=0 and expiration=30 and ordSum=rev and ordAsm=id and now'=31
      and domain="''msg2.8.4.0000.tunnel.example.com''", OF h p l lt]
  show ?thesis using h by simp
qed

section \<open>ServeDNS answers every question\<close>




section \<open>What parseDomain refuses and what it lets through\<close>

text \<open>
  What \<open>parseDomain\<close> refuses, and that a refused name changes nothing: a name
  outside the top domain, fewer than four labels, a size or an offset that
  \<open>strconv.Atoi\<close> does not read.
\<close>

lemma parseDomain_refuses:
  "\<not> HasSuffix domain (CHR ''.'' # td) \<Longrightarrow> parseDomain td domain = Inl NoTopDomain"
  "HasSuffix domain (CHR ''.'' # td) \<Longrightarrow>
     length (Split (TrimSuffix domain (CHR ''.'' # td)) (CHR ''.'')) < 4 \<Longrightarrow>
     parseDomain td domain =
       Inl (TooFewLabels (length (Split (TrimSuffix domain (CHR ''.'' # td)) (CHR ''.''))))"
  "HasSuffix domain (CHR ''.'' # td) \<Longrightarrow>
     \<not> length (Split (TrimSuffix domain (CHR ''.'' # td)) (CHR ''.'')) < 4 \<Longrightarrow>
     Atoi (Split (TrimSuffix domain (CHR ''.'' # td)) (CHR ''.'') ! 1) = Inl err \<Longrightarrow>
     parseDomain td domain = Inl err"
  "HasSuffix domain (CHR ''.'' # td) \<Longrightarrow>
     \<not> length (Split (TrimSuffix domain (CHR ''.'' # td)) (CHR ''.'')) < 4 \<Longrightarrow>
     Atoi (Split (TrimSuffix domain (CHR ''.'' # td)) (CHR ''.'') ! 2) = Inl err \<Longrightarrow>
     \<exists>err'. parseDomain td domain = Inl err'"
  by (simp_all add: parseDomain_def Let_def split: sum.splits)

lemma digitsValue_Some: "digitsValue n s = Some v \<Longrightarrow> \<forall>c\<in>set s. digitVal c \<noteq> None"
  by (induction s arbitrary: n) (auto split: option.splits)

lemma Atoi_reads:
  assumes "Atoi s = Inr v"
  shows "\<exists>body. body \<noteq> [] \<and> (\<forall>c\<in>set body. digitVal c \<noteq> None) \<and>
           (s = body \<or> s = CHR ''+'' # body \<or> s = CHR ''-'' # body)"
  using assms unfolding Atoi_def Let_def
  by (auto split: list.splits if_splits option.splits dest!: digitsValue_Some
      simp: digitVal_def)

text \<open>
  Claim C3. \<open>parseDomain\<close> does not return an error for a size or an offset that is
  a negative number, since \<open>strconv.Atoi\<close> reads the sign; \<open>make\<close> then panics on
  the negative size.
\<close>

theorem parseDomain_accepts_negative:
  "parseDomain ''tunnel.example.com'' ''x.-1.0.a.tunnel.example.com'' =
     Inr \<lparr>fg_id = ''x'', fg_totalSize = - 1, offset = 0, data = ''a''\<rparr> \<and>
   parseDomain ''tunnel.example.com'' ''x.8.-1.aaaaaaaaa.tunnel.example.com'' =
     Inr \<lparr>fg_id = ''x'', fg_totalSize = 8, offset = - 1, data = ''aaaaaaaaa''\<rparr> \<and>
   handleDomain 30 0 id id ''x.-1.0.a.tunnel.example.com'' (newTunnel ''tunnel.example.com'')
     = Panicked MakesliceLenOutOfRange"
  by (simp add: handleDomain_def newTunnel_def parseDomain_def HasSuffix_def TrimSuffix_def
      Atoi_def digitVal_def assemble_def)

text \<open>
  Claim C9. A fragment whose offset is negative passes the guard of \<open>assemble\<close>,
  and the slice expression \<open>buf[f.offset:]\<close> panics: here on one query, received by a
  new tunnel.
\<close>

theorem negative_offset_panics:
  "handleDomain 30 0 id id ''x.8.-1.aaaaaaaaa.tunnel.example.com'' (newTunnel ''tunnel.example.com'')
     = Panicked SliceBoundsOutOfRange"
  by (simp add: handleDomain_def newTunnel_def parseDomain_def HasSuffix_def TrimSuffix_def
      Atoi_def digitVal_def assemble_def)


section \<open>Fragments that overrun the buffer\<close>

lemma length_copy: "length (copy dst src) = length dst"
  by (simp add: copy_def)

lemma length_copyAt: "off \<le> length buf \<Longrightarrow> length (copyAt buf off src) = length buf"
  by (simp add: copyAt_def length_copy)

lemma copyAt_overrun:
  "off \<le> length buf \<Longrightarrow> length buf \<le> off + length src \<Longrightarrow>
     copyAt buf off src = take off buf @ take (length buf - off) src"
  by (simp add: copyAt_def copy_def)

text \<open>
  With an offset that is not negative the code truncates: when the loop of
  \<open>assemble\<close> comes to a fragment with \<open>0 \<le> offset < totalSize\<close> and
  \<open>offset + len(data) > totalSize\<close>, it reports no error and goes on with the buffer
  whose bytes from \<open>offset\<close> to the end are the first \<open>totalSize - offset\<close> bytes of
  the data, the rest of the data being dropped, and the buffer keeps its length.
  When this is the only fragment, the result of \<open>assemble\<close> is the result of decoding
  that truncated buffer.
\<close>

lemma assemble_truncates:
  assumes "0 \<le> offset f" and "offset f < tsize" and "int (length buf) = tsize"
    and "offset f + int (length (data f)) > tsize" and "is_range_order ord"
  shows "assembleLoop tsize buf ((k, f) # rest) =
           assembleLoop tsize (take (nat (offset f)) buf @ take (nat (tsize - offset f)) (data f)) rest \<and>
         length (take (nat (offset f)) buf @ take (nat (tsize - offset f)) (data f)) = nat tsize \<and>
         assemble ord \<lparr>totalSize = tsize, fragments = [(k, f)], expiresAt = e\<rparr> =
           (case DecodeString (replicate (nat (offset f)) (CHR 0x00) @
                               take (nat (tsize - offset f)) (data f)) of
              Inl err \<Rightarrow> Failed err
            | Inr dec \<Rightarrow> Returned dec)"
proof -
  have c: "copyAt b (nat (offset f)) (data f) =
           take (nat (offset f)) b @ take (nat (tsize - offset f)) (data f)"
    if "int (length b) = tsize" for b
  proof -
    have "nat (offset f) \<le> length b" "length b \<le> nat (offset f) + length (data f)"
      "length b - nat (offset f) = nat (tsize - offset f)"
      using assms(1,2,4) that by linarith+
    then show ?thesis by (simp add: copyAt_overrun)
  qed
  have 1: "assembleLoop tsize buf ((k, f) # rest) =
           assembleLoop tsize (take (nat (offset f)) buf @ take (nat (tsize - offset f)) (data f)) rest"
    using assms(1,2,3) c[OF assms(3)] by simp
  have 2: "length (take (nat (offset f)) buf @ take (nat (tsize - offset f)) (data f)) = nat tsize"
    using assms(1,2,3,4) by (simp add: min_def) linarith
  have z: "int (length (replicate (nat tsize) (CHR 0x00))) = tsize"
    using assms(1,2) by simp
  have "assembleLoop tsize (replicate (nat tsize) (CHR 0x00)) [(k, f)] =
        Returned (replicate (nat (offset f)) (CHR 0x00) @ take (nat (tsize - offset f)) (data f))"
    using assms(1,2) c[OF z] by (simp add: min_def)
  then have 3: "assemble ord \<lparr>totalSize = tsize, fragments = [(k, f)], expiresAt = e\<rparr> =
           (case DecodeString (replicate (nat (offset f)) (CHR 0x00) @
                               take (nat (tsize - offset f)) (data f)) of
              Inl err \<Rightarrow> Failed err
            | Inr dec \<Rightarrow> Returned dec)"
    using assms(1,2) range_order_single[OF assms(5)] by (simp add: assemble_def)
  from 1 2 3 show ?thesis by simp
qed

lemma assemble_truncates_example:
  "(0::int) \<le> 0 \<and> (0::int) < 8 \<and> int (length ''nbuq0000zzzz'') > 8 \<and> is_range_order rev \<and>
   assemble rev \<lparr>totalSize = 8,
       fragments = [(0, \<lparr>fg_id = ''m'', fg_totalSize = 8, offset = 0, data = ''nbuq0000zzzz''\<rparr>)],
       expiresAt = 0\<rparr> = Returned ''hi''"
proof -
  let ?f = "\<lparr>fg_id = ''m'', fg_totalSize = 8, offset = 0, data = ''nbuq0000zzzz''\<rparr>"
  have a: "0 \<le> offset ?f" and b: "offset ?f < 8"
    and c: "int (length (replicate 8 (CHR 0x00))) = 8"
    and d: "offset ?f + int (length (data ?f)) > 8"
    by simp_all
  from assemble_truncates[where f="?f" and tsize=8 and buf="replicate 8 (CHR 0x00)" and ord=rev
      and k=0 and e=0, OF a b c d is_range_order_rev]
  show ?thesis using is_range_order_rev by (simp add: DecodeString_nbuq)
qed

lemma parse_overrun:
  "parseDomain ''tunnel.example.com'' ''x.8.-1.aaaaaaaaaa.tunnel.example.com'' =
     Inr \<lparr>fg_id = ''x'', fg_totalSize = 8, offset = - 1, data = ''aaaaaaaaaa''\<rparr>"
  by (simp add: parseDomain_def HasSuffix_def TrimSuffix_def Atoi_def digitVal_def)

text \<open>
  Claim C10. The query \<open>x.8.-1.aaaaaaaaaa.tunnel.example.com\<close>, received by a new
  tunnel, stores a fragment with \<open>offset < totalSize\<close> and
  \<open>offset + len(data) > totalSize\<close> (offset -1, ten bytes of data, total size 8).
  \<open>assemble\<close> does not truncate it and decode the buffer: the slice expression
  \<open>buf[f.offset:]\<close> panics.
\<close>

theorem negative_offset_overrun_panics:
  "parseDomain ''tunnel.example.com'' ''x.8.-1.aaaaaaaaaa.tunnel.example.com'' =
     Inr \<lparr>fg_id = ''x'', fg_totalSize = 8, offset = - 1, data = ''aaaaaaaaaa''\<rparr> \<and>
   offset \<lparr>fg_id = ''x'', fg_totalSize = 8, offset = - 1, data = ''aaaaaaaaaa''\<rparr> < 8 \<and>
   offset \<lparr>fg_id = ''x'', fg_totalSize = 8, offset = - 1, data = ''aaaaaaaaaa''\<rparr> +
     int (length (data \<lparr>fg_id = ''x'', fg_totalSize = 8, offset = - 1, data = ''aaaaaaaaaa''\<rparr>)) > 8 \<and>
   assemble id \<lparr>totalSize = 8,
       fragments = [(- 1, \<lparr>fg_id = ''x'', fg_totalSize = 8, offset = - 1, data = ''aaaaaaaaaa''\<rparr>)],
       expiresAt = 30\<rparr> = Panicked SliceBoundsOutOfRange \<and>
   handleDomain 30 0 id id ''x.8.-1.aaaaaaaaaa.tunnel.example.com'' (newTunnel ''tunnel.example.com'')
     = Panicked SliceBoundsOutOfRange"
  by (simp add: parse_overrun handleDomain_def newTunnel_def assemble_def)

section \<open>The fragments of a blob cut into chunks\<close>

lemma parse_chunkDomains:
  assumes "CHR ''.'' \<notin> set ident" and "\<forall>c\<in>set cs. CHR ''.'' \<notin> set c"
    and "tsize < 2 ^ 63" and "off + length (concat cs) < 2 ^ 63"
  shows "map (parseDomain td) (chunkDomains ident td tsize off cs) =
         map Inr (chunkFragments ident tsize off cs)"
  using assms(2,4)
proof (induction cs arbitrary: off)
  case Nil
  then show ?case by simp
next
  case (Cons c cs)
  have "off < 2 ^ 63" using Cons.prems(2) by simp
  then have "parseDomain td (fragmentDomain ident tsize off c td) =
      Inr \<lparr>fg_id = ident, fg_totalSize = int tsize, offset = int off, data = c\<rparr>"
    using Cons.prems(1) assms(1,3) by (intro parseDomain_fragmentDomain) simp_all
  moreover have "map (parseDomain td) (chunkDomains ident td tsize (off + length c) cs) =
         map Inr (chunkFragments ident tsize (off + length c) cs)"
    using Cons.prems by (intro Cons.IH) (simp_all add: add.assoc)
  ultimately show ?case by simp
qed

lemma chunkFragments_props:
  assumes "f \<in> set (chunkFragments ident tsize off cs)"
  shows "fg_id f = ident" "fg_totalSize f = int tsize" "int off \<le> offset f"
    "nat (offset f) + length (data f) \<le> off + length (concat cs)"
    "data f = take (length (data f)) (drop (nat (offset f) - off) (concat cs))"
    "data f \<in> set cs"
  using assms
proof (induction cs arbitrary: off)
  case Nil
  { case 1 then show ?case by simp }
  { case 2 then show ?case by simp }
  { case 3 then show ?case by simp }
  { case 4 then show ?case by simp }
  { case 5 then show ?case by simp }
  { case 6 then show ?case by simp }
next
  case (Cons c cs)
  { case 1 then show ?case using Cons.IH(1) by auto }
  { case 2 then show ?case using Cons.IH(2) by auto }
  { case 3 then show ?case using Cons.IH(3)[of "off + length c"] by auto }
  { case 4 then show ?case using Cons.IH(4)[of "off + length c"] by auto }
  { case 5
    show ?case
    proof (cases "f = \<lparr>fg_id = ident, fg_totalSize = int tsize, offset = int off, data = c\<rparr>")
      case True
      then show ?thesis by simp
    next
      case False
      with 5 have m: "f \<in> set (chunkFragments ident tsize (off + length c) cs)" by simp
      from Cons.IH(3)[OF m] have o: "off + length c \<le> nat (offset f)" by linarith
      then have "nat (offset f) - off = length c + (nat (offset f) - (off + length c))" by simp
      then show ?thesis using Cons.IH(5)[OF m] by simp
    qed }
  { case 6 then show ?case using Cons.IH(6) by auto }
qed

lemma distinct_chunk_offsets:
  "\<forall>c\<in>set cs. c \<noteq> [] \<Longrightarrow> distinct (map offset (chunkFragments ident tsize off cs))"
proof (induction cs arbitrary: off)
  case Nil
  then show ?case by simp
next
  case (Cons c cs)
  have "int off \<notin> offset ` set (chunkFragments ident tsize (off + length c) cs)"
  proof
    assume "int off \<in> offset ` set (chunkFragments ident tsize (off + length c) cs)"
    then obtain f where "f \<in> set (chunkFragments ident tsize (off + length c) cs)" "offset f = int off"
      by auto
    with chunkFragments_props(3)[OF this(1)] Cons.prems show False by simp
  qed
  with Cons show ?case by simp
qed

lemma chunks_cover:
  "i < length (concat cs) \<Longrightarrow>
     \<exists>f\<in>set (chunkFragments ident tsize off cs).
        nat (offset f) \<le> off + i \<and> off + i < nat (offset f) + length (data f)"
proof (induction cs arbitrary: off i)
  case Nil
  then show ?case by simp
next
  case (Cons c cs)
  show ?case
  proof (cases "i < length c")
    case True
    then show ?thesis by simp
  next
    case False
    with Cons.prems have "i - length c < length (concat cs)" by simp
    from Cons.IH[OF this, of "off + length c"] False show ?thesis by auto
  qed
qed

lemma dataBytes_chunks:
  "dataBytes (entries (chunkFragments ident tsize off cs)) = int (length (concat cs))"
  by (induction cs arbitrary: off) (simp_all add: dataBytes_def entries_def)

section \<open>assemble rebuilds the blob\<close>

lemma nth_copyAt:
  assumes "off \<le> length buf" and "i < length buf"
  shows "copyAt buf off src ! i = (if off \<le> i \<and> i < off + length src then src ! (i - off) else buf ! i)"
proof (cases "i < off")
  case True
  then show ?thesis using assms by (simp add: copyAt_def nth_append)
next
  case False
  then have 1: "copyAt buf off src ! i = copy (drop off buf) src ! (i - off)"
    using assms by (simp add: copyAt_def nth_append)
  show ?thesis
  proof (cases "i - off < length src")
    case True
    moreover have "i - off < length buf - off" using assms False by simp
    ultimately have "copy (drop off buf) src ! (i - off) = src ! (i - off)"
      by (simp add: copy_def nth_append)
    moreover have "off \<le> i \<and> i < off + length src" using True False by arith
    ultimately show ?thesis using 1 by simp
  next
    case n: False
    then have "length src \<le> length buf - off" using assms False by simp
    then have "copy (drop off buf) src ! (i - off) = drop (length src) (drop off buf) ! (i - off - length src)"
      using n by (simp add: copy_def nth_append min_def)
    also have "\<dots> = buf ! i" using n False assms by (simp add: add.commute)
    finally have "copyAt buf off src ! i = buf ! i" using 1 by simp
    moreover have "\<not> (off \<le> i \<and> i < off + length src)" using n False by arith
    ultimately show ?thesis by (simp only: if_False)
  qed
qed

lemma fits_nth:
  assumes "fits blob f" and "nat (offset f) \<le> i" and "i < nat (offset f) + length (data f)"
  shows "data f ! (i - nat (offset f)) = blob ! i"
proof -
  from assms have j: "i - nat (offset f) < length (data f)" by simp
  have "data f ! (i - nat (offset f)) =
        take (length (data f)) (drop (nat (offset f)) blob) ! (i - nat (offset f))"
    using assms(1) by (simp add: fits_def)
  also have "\<dots> = drop (nat (offset f)) blob ! (i - nat (offset f))"
    using j by simp
  also have "\<dots> = blob ! i"
    using assms by (simp add: fits_def)
  finally show ?thesis .
qed

lemma assembleLoop_fits:
  assumes "\<forall>(k, f)\<in>set xs. fits blob f" and "length buf = length blob"
  shows "\<exists>buf'. assembleLoop (int (length blob)) buf xs = Returned buf' \<and>
           length buf' = length blob \<and>
           (\<forall>i<length blob.
              (buf ! i = blob ! i \<or>
               (\<exists>(k, f)\<in>set xs. nat (offset f) \<le> i \<and> i < nat (offset f) + length (data f)))
              \<longrightarrow> buf' ! i = blob ! i)"
  using assms
proof (induction xs arbitrary: buf)
  case Nil
  then show ?case by simp
next
  case (Cons x xs)
  obtain k f where x: "x = (k, f)" by (cases x)
  from Cons.prems x have f: "fits blob f" by simp
  let ?buf1 = "copyAt buf (nat (offset f)) (data f)"
  have o: "nat (offset f) \<le> length buf" using f Cons.prems(2) by (simp add: fits_def)
  have l1: "length ?buf1 = length blob" using o Cons.prems(2) by (simp add: length_copyAt)
  from Cons.prems have "\<forall>(k, f)\<in>set xs. fits blob f" by simp
  from Cons.IH[OF this l1] obtain buf' where
    r: "assembleLoop (int (length blob)) ?buf1 xs = Returned buf'"
    and l: "length buf' = length blob"
    and n: "\<forall>i<length blob.
              (?buf1 ! i = blob ! i \<or>
               (\<exists>(k, f)\<in>set xs. nat (offset f) \<le> i \<and> i < nat (offset f) + length (data f)))
              \<longrightarrow> buf' ! i = blob ! i"
    by blast
  have step: "assembleLoop (int (length blob)) buf (x # xs) = Returned buf'"
    using f r Cons.prems(2) by (simp add: x fits_def)
  have "buf' ! i = blob ! i"
    if i: "i < length blob"
      and h: "buf ! i = blob ! i \<or>
        (\<exists>(k, f)\<in>set (x # xs). nat (offset f) \<le> i \<and> i < nat (offset f) + length (data f))"
    for i
  proof -
    have c: "?buf1 ! i = (if nat (offset f) \<le> i \<and> i < nat (offset f) + length (data f)
                          then data f ! (i - nat (offset f)) else buf ! i)"
      using o i Cons.prems(2) by (intro nth_copyAt) simp_all
    show ?thesis
    proof (cases "nat (offset f) \<le> i \<and> i < nat (offset f) + length (data f)")
      case True
      then have "?buf1 ! i = blob ! i" using c fits_nth[OF f] by simp
      with n i show ?thesis by blast
    next
      case False
      with h x have "buf ! i = blob ! i \<or>
        (\<exists>(k, f)\<in>set xs. nat (offset f) \<le> i \<and> i < nat (offset f) + length (data f))"
        by auto
      then show ?thesis
      proof
        assume "buf ! i = blob ! i"
        with c False have "?buf1 ! i = blob ! i" by simp
        with n i show ?thesis by blast
      next
        assume "\<exists>(k, f)\<in>set xs. nat (offset f) \<le> i \<and> i < nat (offset f) + length (data f)"
        with n i show ?thesis by blast
      qed
    qed
  qed
  with step l show ?case by blast
qed

lemma encodeGroup_chars:
  "c \<in> set (encodeGroup n bs) \<Longrightarrow> c \<in> set encodeStd \<or> c = padChar"
proof -
  assume "c \<in> set (encodeGroup n bs)"
  then consider q where "q \<in> set (quintets (map of_char bs))" "c = encodeStd ! unat q" | "c = padChar"
    by (auto simp: encodeGroup_def dest: in_set_takeD)
  then show ?thesis
  proof cases
    case 1
    from quintets_lt[OF 1(1)] have "unat q < length encodeStd" by (simp add: encodeStd_def)
    then show ?thesis using 1(2) by simp
  next
    case 2
    then show ?thesis by simp
  qed
qed

lemma EncodeToString_chars:
  "c \<in> set (EncodeToString p) \<Longrightarrow> c \<in> set encodeStd \<or> c = padChar"
  by (induction p rule: EncodeToString.induct) (auto dest: encodeGroup_chars)

lemma EncodeToString_plain:
  assumes "c \<in> set (EncodeToString p)"
  shows "c \<noteq> CHR ''.''" "c \<noteq> CHR 0x0D" "c \<noteq> CHR 0x0A"
  using EncodeToString_chars[OF assms] by (auto simp: encodeStd_def padChar_def)

lemma DecodeString_EncodeToString: "DecodeString (EncodeToString p) = Inr p"
proof -
  have "filter (\<lambda>b. b \<noteq> CHR 0x0D \<and> b \<noteq> CHR 0x0A) (EncodeToString p) = EncodeToString p"
    using EncodeToString_plain(2,3) by (intro filter_True) blast
  then show ?thesis by (simp add: DecodeString_def decode_EncodeToString)
qed

lemma EncodeToString_neq_Nil: "p \<noteq> [] \<Longrightarrow> EncodeToString p \<noteq> []"
  by (cases p rule: EncodeToString.cases) (simp_all add: encodeGroup_neq_Nil)

lemma assemble_fits:
  assumes "\<forall>f\<in>set hs. fits blob f"
    and "\<forall>i<length blob. \<exists>f\<in>set hs. nat (offset f) \<le> i \<and> i < nat (offset f) + length (data f)"
    and "is_range_order ord" and "DecodeString blob = Inr p"
  shows "assemble ord \<lparr>totalSize = int (length blob), fragments = entries hs, expiresAt = e\<rparr> = Returned p"
proof -
  have s: "set (ord (entries hs)) = set (entries hs)"
    using assms(3) by (metis is_range_order_def set_mset_mset)
  then have "\<forall>(k, f)\<in>set (ord (entries hs)). fits blob f"
    using assms(1) by (auto simp: entries_def)
  from assembleLoop_fits[OF this, of "replicate (length blob) (CHR 0x00)"]
  obtain buf' where r: "assembleLoop (int (length blob)) (replicate (length blob) (CHR 0x00))
        (ord (entries hs)) = Returned buf'"
    and l: "length buf' = length blob"
    and n: "\<forall>i<length blob.
              (\<exists>(k, f)\<in>set (ord (entries hs)). nat (offset f) \<le> i \<and> i < nat (offset f) + length (data f))
              \<longrightarrow> buf' ! i = blob ! i"
    by auto
  have "buf' ! i = blob ! i" if "i < length blob" for i
  proof -
    from assms(2) that obtain f where "f \<in> set hs" "nat (offset f) \<le> i" "i < nat (offset f) + length (data f)"
      by blast
    then have "\<exists>(k, f)\<in>set (ord (entries hs)). nat (offset f) \<le> i \<and> i < nat (offset f) + length (data f)"
      unfolding s by (auto simp: entries_def)
    with n that show ?thesis by blast
  qed
  with l have "buf' = blob" by (simp add: nth_equalityI)
  with r assms(4) show ?thesis by (simp add: assemble_def)
qed

section \<open>The round trip\<close>

lemma update_entries:
  "offset g \<notin> offset ` set fs \<Longrightarrow> AList.update (offset g) g (entries fs) = entries (fs @ [g])"
  by (induction fs) (auto simp: entries_def)

lemma dataBytes_entries_append:
  "dataBytes (entries (fs @ gs)) = dataBytes (entries fs) + dataBytes (entries gs)"
  by (simp add: dataBytes_def entries_def)

lemma dataBytes_nonneg: "0 \<le> dataBytes xs"
  by (induction xs) (auto simp: dataBytes_def)

lemma stored_pend:
  assumes "fg_id g = ident" and "fg_totalSize g = tsize" and "offset g \<notin> offset ` set fs"
  shows "stored expiration now g (pend tun ident tsize fs e) =
           \<lparr>totalSize = tsize, fragments = entries (fs @ [g]), expiresAt = now + expiration\<rparr>"
  using assms update_entries[OF assms(3)]
  by (simp add: stored_def pend_def) (simp add: entries_def)

lemma pend_again:
  "(pend tun ident tsize fs e)\<lparr>fgLists := (fgLists (pend tun ident tsize fs e))(ident \<mapsto>
       \<lparr>totalSize = tsize, fragments = entries (fs @ [g]), expiresAt = e'\<rparr>)\<rparr> =
   pend tun ident tsize (fs @ [g]) e'"
  by (simp add: pend_def)

lemma handleDomain_pending:
  assumes "parseDomain (topDomain tun) d = Inr g"
    and "fg_id g = ident" and "fg_totalSize g = tsize" and "offset g \<notin> offset ` set fs"
    and "is_range_order ordSum"
    and "dataBytes (entries (fs @ [g])) < tsize"
  shows "handleDomain expiration now ordSum ordAsm d (pend tun ident tsize fs e) =
           Returned (pend tun ident tsize (fs @ [g]) (now + expiration))"
proof -
  have p: "parseDomain (topDomain (pend tun ident tsize fs e)) d = Inr g"
    using assms(1) by (simp add: pend_def)
  show ?thesis
    unfolding handleDomain_parsed[OF p assms(5)] stored_pend[OF assms(2,3,4)]
    using assms(2,6) by (simp add: pend_again)
qed

lemma handleDomain_completing:
  assumes "parseDomain (topDomain tun) d = Inr g"
    and "fg_id g = ident" and "fg_totalSize g = tsize" and "offset g \<notin> offset ` set fs"
    and "is_range_order ordSum"
    and "dataBytes (entries (fs @ [g])) \<ge> tsize"
    and "assemble ordAsm \<lparr>totalSize = tsize, fragments = entries (fs @ [g]),
                           expiresAt = now + expiration\<rparr> = Returned p"
  shows "handleDomain expiration now ordSum ordAsm d (pend tun ident tsize fs e) =
           Returned (tun\<lparr>Messages := Messages tun @ [p], fgLists := (fgLists tun)(ident := None)\<rparr>)"
proof -
  have p: "parseDomain (topDomain (pend tun ident tsize fs e)) d = Inr g"
    using assms(1) by (simp add: pend_def)
  show ?thesis
    unfolding handleDomain_parsed[OF p assms(5)] stored_pend[OF assms(2,3,4)]
    using assms(2,6,7) by (simp add: pend_def)
qed

lemma listenDomains_append:
  "listenDomains expiration (rs @ rs') tun =
     (case listenDomains expiration rs tun of
        Returned tun' \<Rightarrow> listenDomains expiration rs' tun'
      | Failed err \<Rightarrow> Failed err
      | Panicked p \<Rightarrow> Panicked p)"
  by (induction rs arbitrary: tun) (auto split: outcome.splits)

lemma listenDomains_pending:
  assumes "list_all2 (\<lambda>r g. parseDomain (topDomain tun) (domainOf r) = Inr g \<and> fairOrders r) rs gs"
    and "\<forall>g\<in>set gs. fg_id g = ident \<and> fg_totalSize g = tsize"
    and "distinct (map offset (fs @ gs))"
    and "dataBytes (entries (fs @ gs)) < tsize"
  shows "\<exists>e'. listenDomains expiration rs (pend tun ident tsize fs e) =
                 Returned (pend tun ident tsize (fs @ gs) e')"
  using assms
proof (induction rs gs arbitrary: fs e rule: list_all2_induct)
  case Nil
  then show ?case by auto
next
  case (Cons r rs g gs)
  obtain now ordSum ordAsm d where r: "r = (now, ordSum, ordAsm, d)" by (cases r)
  from Cons.hyps(1) r have p: "parseDomain (topDomain tun) d = Inr g" and o: "is_range_order ordSum"
    by (simp_all add: domainOf_def fairOrders_def)
  from Cons.prems have i: "fg_id g = ident" "fg_totalSize g = tsize" by simp_all
  from Cons.prems(2) have fr: "offset g \<notin> offset ` set fs" by auto
  have "dataBytes (entries (fs @ g # gs)) = dataBytes (entries (fs @ [g])) + dataBytes (entries gs)"
    using dataBytes_entries_append[of "fs @ [g]" gs] by simp
  with Cons.prems(3) dataBytes_nonneg[of "entries gs"]
  have lt: "dataBytes (entries (fs @ [g])) < tsize" by simp
  have step: "handleDomain expiration now ordSum ordAsm d (pend tun ident tsize fs e) =
           Returned (pend tun ident tsize (fs @ [g]) (now + expiration))"
    by (rule handleDomain_pending[OF p i fr o lt])
  have "\<exists>e'. listenDomains expiration rs (pend tun ident tsize (fs @ [g]) (now + expiration)) =
                 Returned (pend tun ident tsize ((fs @ [g]) @ gs) e')"
    using Cons.prems by (intro Cons.IH) simp_all
  then show ?case using step by (simp add: r)
qed


lemma dataBytes_entries_mset:
  "mset gs = mset fs \<Longrightarrow> dataBytes (entries gs) = dataBytes (entries fs)"
proof -
  assume "mset gs = mset fs"
  then have "mset (entries gs) = mset (entries fs)"
    unfolding entries_def by (metis mset_map)
  then show ?thesis by (rule dataBytes_mset)
qed

text \<open>
  Claim C1, amended. Let \<open>p\<close> be a payload that is not empty, let the chunks \<open>cs\<close>,
  none of them empty, be its encoding \<open>EncodeToString p\<close> cut at arbitrary places,
  let the id contain no dot, and let the store hold no list for the id. When
  \<open>listenDomains\<close> receives the domains of the chunks, wrapped by \<open>chunkDomains\<close> with
  the length of the encoding as total size, in any order, each at any time and with
  any orders of the range loops, it ends with exactly one more message on
  \<open>Messages\<close>, which is \<open>p\<close>, and with the store as it was. (The length of the
  encoding has to be an \<open>int\<close> of Go.)
\<close>

theorem round_trip:
  assumes "p \<noteq> []"
    and "concat cs = EncodeToString p"
    and "\<forall>c\<in>set cs. c \<noteq> []"
    and "CHR ''.'' \<notin> set ident"
    and "length (EncodeToString p) < 2 ^ 63"
    and "fgLists tun ident = None"
    and "mset (map domainOf rs) =
         mset (chunkDomains ident (topDomain tun) (length (EncodeToString p)) 0 cs)"
    and "\<forall>r\<in>set rs. fairOrders r"
  shows "listenDomains expiration rs tun = Returned (tun\<lparr>Messages := Messages tun @ [p]\<rparr>)"
proof -
  let ?blob = "EncodeToString p"
  let ?T = "length ?blob"
  let ?td = "topDomain tun"
  let ?F = "chunkFragments ident ?T 0 cs"
  let ?D = "chunkDomains ident ?td ?T 0 cs"
  define parsed where
    "parsed d = (case parseDomain ?td d of
                   Inr g \<Rightarrow> g
                 | Inl err \<Rightarrow> \<lparr>fg_id = [], fg_totalSize = 0, offset = 0, data = []\<rparr>)" for d
  define gs where "gs = map (\<lambda>r. parsed (domainOf r)) rs"
  have nodot: "\<forall>c\<in>set cs. CHR ''.'' \<notin> set c"
  proof
    fix c assume "c \<in> set cs"
    then have "set c \<subseteq> set (concat cs)" by auto
    with EncodeToString_plain(1)[of _ p] assms(2) show "CHR ''.'' \<notin> set c" by auto
  qed
  have pD: "map (parseDomain ?td) ?D = map Inr ?F"
    using assms(2,4,5) nodot by (intro parse_chunkDomains) simp_all
  have parsedD: "map parsed ?D = ?F"
  proof -
    have "map parsed ?D =
        map (\<lambda>x. case x of Inr g \<Rightarrow> g
                | Inl err \<Rightarrow> \<lparr>fg_id = [], fg_totalSize = 0, offset = 0, data = []\<rparr>)
          (map (parseDomain ?td) ?D)"
      by (simp add: parsed_def comp_def)
    also have "\<dots> = ?F" unfolding pD by (simp add: comp_def)
    finally show ?thesis .
  qed
  have "mset gs = image_mset parsed (mset (map domainOf rs))"
    by (simp add: gs_def multiset.map_comp comp_def)
  also have "\<dots> = mset (map parsed ?D)" unfolding assms(7) by simp
  finally have ms: "mset gs = mset ?F" by (simp add: parsedD)
  then have sets: "set gs = set ?F" by (metis set_mset_mset)

  have parse_r: "parseDomain ?td (domainOf r) = Inr (parsed (domainOf r))" if "r \<in> set rs" for r
  proof -
    from that have "domainOf r \<in> set (map domainOf rs)" by simp
    then have "domainOf r \<in> set ?D" using assms(7) by (metis set_mset_mset)
    then have "parseDomain ?td (domainOf r) \<in> set (map (parseDomain ?td) ?D)" by simp
    then obtain f where "parseDomain ?td (domainOf r) = Inr f" unfolding pD by auto
    then show ?thesis by (simp add: parsed_def)
  qed
  have all2: "list_all2 (\<lambda>r g. parseDomain ?td (domainOf r) = Inr g \<and> fairOrders r) rs gs"
    unfolding gs_def list_all2_map2 using parse_r assms(8) by (simp add: list_all2_same)

  have ids: "\<forall>g\<in>set gs. fg_id g = ident \<and> fg_totalSize g = int ?T"
    unfolding sets using chunkFragments_props(1,2) by blast
  have "distinct (map offset ?F)" using assms(3) by (rule distinct_chunk_offsets)
  moreover have "mset (map offset gs) = mset (map offset ?F)" using ms by (metis mset_map)
  ultimately have dist: "distinct (map offset gs)" by (metis mset_eq_imp_distinct_iff)
  have total: "dataBytes (entries gs) = int ?T"
    using dataBytes_entries_mset[OF ms] dataBytes_chunks[of ident ?T 0 cs] assms(2) by simp

  have "?blob \<noteq> []" using assms(1) by (rule EncodeToString_neq_Nil)
  then have "cs \<noteq> []" using assms(2) by auto
  then have "?F \<noteq> []" by (cases cs) simp_all
  then have "gs \<noteq> []" using ms by auto
  then have "rs \<noteq> []" by (simp add: gs_def)
  then obtain rs' r where rs: "rs = rs' @ [r]" by (metis rev_exhaust)
  define gs' where "gs' = map (\<lambda>r. parsed (domainOf r)) rs'"
  define g where "g = parsed (domainOf r)"
  have gs: "gs = gs' @ [g]" by (simp add: gs_def rs gs'_def g_def)
  obtain now ordSum ordAsm d where r: "r = (now, ordSum, ordAsm, d)" by (cases r)

  have "g \<in> set ?F" using sets gs by auto
  then have "data g \<in> set cs" by (rule chunkFragments_props(6))
  then have "data g \<noteq> []" using assms(3) by blast
  then have "dataBytes (entries [g]) > 0" by (simp add: dataBytes_def entries_def)
  then have lt: "dataBytes (entries ([] @ gs')) < int ?T"
    using total dataBytes_entries_append[of gs' "[g]"] by (simp add: gs)

  have all2': "list_all2 (\<lambda>r g. parseDomain ?td (domainOf r) = Inr g \<and> fairOrders r) rs' gs'"
  proof -
    have "length rs' = length gs'" by (simp add: gs'_def)
    from list_all2_append[OF this] all2 show ?thesis by (simp add: rs gs)
  qed
  have start: "pend tun ident (int ?T) [] 0 = tun"
    using assms(6) by (simp add: pend_def fun_upd_idem)
  have ids': "\<forall>g\<in>set gs'. fg_id g = ident \<and> fg_totalSize g = int ?T"
    using ids by (simp add: gs)
  have dist': "distinct (map offset ([] @ gs'))" using dist by (simp add: gs)
  from listenDomains_pending[OF all2' ids' dist' lt, of expiration 0]
  obtain e' where "listenDomains expiration rs' (pend tun ident (int ?T) [] 0) =
      Returned (pend tun ident (int ?T) ([] @ gs') e')"
    by blast
  then have run: "listenDomains expiration rs' tun = Returned (pend tun ident (int ?T) gs' e')"
    unfolding start by simp

  have p_last: "parseDomain ?td d = Inr g" and fair: "is_range_order ordSum" "is_range_order ordAsm"
    using parse_r[of r] assms(8) by (simp_all add: rs r g_def domainOf_def fairOrders_def)
  have fresh: "offset g \<notin> offset ` set gs'" using dist by (simp add: gs)
  have ge: "dataBytes (entries (gs' @ [g])) \<ge> int ?T" using total by (simp add: gs)

  have fit: "\<forall>f\<in>set gs. fits ?blob f"
  proof
    fix f assume "f \<in> set gs"
    then have f: "f \<in> set ?F" using sets by simp
    from chunkFragments_props(6)[OF f] assms(3) have ne: "data f \<noteq> []" by blast
    then have len: "1 \<le> length (data f)" by (cases "data f") simp_all
    have a: "0 \<le> offset f" using chunkFragments_props(3)[OF f] by simp
    have b: "nat (offset f) + length (data f) \<le> ?T"
      using chunkFragments_props(4)[OF f] assms(2) by simp
    have "offset f < int ?T" using a b len by linarith
    moreover note a b
    moreover from chunkFragments_props(5)[OF f] assms(2)
    have "data f = take (length (data f)) (drop (nat (offset f)) ?blob)" by simp
    ultimately show "fits ?blob f" by (simp add: fits_def)
  qed
  have cover: "\<forall>i<?T. \<exists>f\<in>set gs. nat (offset f) \<le> i \<and> i < nat (offset f) + length (data f)"
    unfolding sets using chunks_cover[of _ cs ident ?T 0] assms(2) by simp
  have asm: "assemble ordAsm \<lparr>totalSize = int ?T, fragments = entries (gs' @ [g]),
                               expiresAt = now + expiration\<rparr> = Returned p"
    using assemble_fits[OF fit cover fair(2) DecodeString_EncodeToString] by (simp add: gs)
  have last: "handleDomain expiration now ordSum ordAsm d (pend tun ident (int ?T) gs' e') =
           Returned (tun\<lparr>Messages := Messages tun @ [p], fgLists := (fgLists tun)(ident := None)\<rparr>)"
    using ids by (intro handleDomain_completing[OF p_last _ _ fresh fair(1) ge asm]) (simp_all add: gs)
  have "(fgLists tun)(ident := None) = fgLists tun" using assms(6) by (simp add: fun_upd_idem)
  then show ?thesis
    by (simp add: rs r listenDomains_append run last)
qed


lemma encodeGroup_hi: "encodeGroup 4 ''hi'' = ''nbuq0000''"
  by code_simp

lemma EncodeToString_hi: "EncodeToString ''hi'' = ''nbuq0000''"
  by (simp add: encodeGroup_hi)

lemma chunkDomains_examples:
  "chunkDomains ''msg2'' ''tunnel.example.com'' 8 0 [''nbuq'', ''0000''] =
     [''msg2.8.0.nbuq.tunnel.example.com'', ''msg2.8.4.0000.tunnel.example.com'']"
  "chunkDomains ''t'' ''tunnel.example.com'' 0 0 [[]] = [''t.0.0..tunnel.example.com'']"
  "chunkDomains ''msg3'' ''tunnel.example.com'' 8 0 [''nbuq0000'', []] =
     [''msg3.8.0.nbuq0000.tunnel.example.com'', ''msg3.8.8..tunnel.example.com'']"
  by code_simp+

theorem round_trip_witness:
  "''hi'' \<noteq> [] \<and> concat [''nbuq'', ''0000''] = EncodeToString ''hi'' \<and>
   CHR ''.'' \<notin> set ''msg2'' \<and> length (EncodeToString ''hi'') < 2 ^ 63 \<and>
   fgLists (newTunnel ''tunnel.example.com'') ''msg2'' = None \<and>
   mset (map domainOf [(0, rev, id, ''msg2.8.4.0000.tunnel.example.com''),
                       (1, id, rev, ''msg2.8.0.nbuq.tunnel.example.com'')]) =
     mset (chunkDomains ''msg2'' ''tunnel.example.com'' 8 0 [''nbuq'', ''0000'']) \<and>
   listenDomains 30 [(0, rev, id, ''msg2.8.4.0000.tunnel.example.com''),
                     (1, id, rev, ''msg2.8.0.nbuq.tunnel.example.com'')]
     (newTunnel ''tunnel.example.com'') =
   Returned \<lparr>Messages = [''hi''], fgLists = Map.empty, topDomain = ''tunnel.example.com'',
             domains = []\<rparr>"
proof -
  let ?rs = "[(0, rev, id, ''msg2.8.4.0000.tunnel.example.com''),
              (1, id, rev, ''msg2.8.0.nbuq.tunnel.example.com'')] :: reception list"
  let ?tun = "newTunnel ''tunnel.example.com''"
  have 1: "''hi'' \<noteq> []" by simp
  have 2: "concat [''nbuq'', ''0000''] = EncodeToString ''hi''" by (simp add: encodeGroup_hi)
  have 3: "\<forall>c\<in>set [''nbuq'', ''0000'']. c \<noteq> []" by simp
  have 4: "CHR ''.'' \<notin> set ''msg2''" by simp
  have 5: "length (EncodeToString ''hi'') < 2 ^ 63" by (simp add: encodeGroup_hi)
  have 6: "fgLists ?tun ''msg2'' = None" by (simp add: newTunnel_def)
  note d = chunkDomains_examples(1)
  have len: "length (EncodeToString ''hi'') = 8" by (simp add: encodeGroup_hi)
  have td: "topDomain ?tun = ''tunnel.example.com''" by (simp add: newTunnel_def)
  have 7: "mset (map domainOf ?rs) =
      mset (chunkDomains ''msg2'' (topDomain ?tun) (length (EncodeToString ''hi'')) 0 [''nbuq'', ''0000''])"
    unfolding len td d by (simp add: domainOf_def)
  have 8: "\<forall>r\<in>set ?rs. fairOrders r"
    by (simp add: fairOrders_def is_range_order_id is_range_order_rev)
  from round_trip[OF 1 2 3 4 5 6 7 8, of 30]
  show ?thesis using 2 4 5 6 7 unfolding len td by (simp add: newTunnel_def)
qed

lemma parse_t0:
  "parseDomain ''tunnel.example.com'' ''t.0.0..tunnel.example.com'' =
     Inr \<lparr>fg_id = ''t'', fg_totalSize = 0, offset = 0, data = []\<rparr>"
  by (simp add: parseDomain_def HasSuffix_def TrimSuffix_def Atoi_def digitVal_def)

lemma parse_msg3:
  "parseDomain ''tunnel.example.com'' ''msg3.8.8..tunnel.example.com'' =
     Inr \<lparr>fg_id = ''msg3'', fg_totalSize = 8, offset = 8, data = []\<rparr>"
  "parseDomain ''tunnel.example.com'' ''msg3.8.0.nbuq0000.tunnel.example.com'' =
     Inr \<lparr>fg_id = ''msg3'', fg_totalSize = 8, offset = 0, data = ''nbuq0000''\<rparr>"
  by (simp_all add: parseDomain_def HasSuffix_def TrimSuffix_def Atoi_def digitVal_def)

theorem round_trip_empty_counterexample:
  "EncodeToString [] = [] \<and>
   chunkDomains ''t'' ''tunnel.example.com'' 0 0 [] = [] \<and>
   listenDomains 30 [] (newTunnel ''tunnel.example.com'') = Returned (newTunnel ''tunnel.example.com'') \<and>
   chunkDomains ''t'' ''tunnel.example.com'' 0 0 [[]] = [''t.0.0..tunnel.example.com''] \<and>
   listenDomains 30 [(0, id, id, ''t.0.0..tunnel.example.com'')] (newTunnel ''tunnel.example.com'') =
     Returned \<lparr>Messages = [],
       fgLists = [''t'' \<mapsto> \<lparr>totalSize = 0,
          fragments = [(0, \<lparr>fg_id = ''t'', fg_totalSize = 0, offset = 0, data = []\<rparr>)],
          expiresAt = 30\<rparr>],
       topDomain = ''tunnel.example.com'', domains = []\<rparr> \<and>
   EncodeToString ''hi'' = ''nbuq0000'' \<and>
   chunkDomains ''msg3'' ''tunnel.example.com'' 8 0 [''nbuq0000'', []] =
     [''msg3.8.0.nbuq0000.tunnel.example.com'', ''msg3.8.8..tunnel.example.com''] \<and>
   listenDomains 30 [(0, id, id, ''msg3.8.8..tunnel.example.com''),
                     (1, id, id, ''msg3.8.0.nbuq0000.tunnel.example.com'')]
       (newTunnel ''tunnel.example.com'') =
     Returned \<lparr>Messages = [],
       fgLists = [''msg3'' \<mapsto> \<lparr>totalSize = 8,
          fragments = [(8, \<lparr>fg_id = ''msg3'', fg_totalSize = 8, offset = 8, data = []\<rparr>),
                       (0, \<lparr>fg_id = ''msg3'', fg_totalSize = 8, offset = 0, data = ''nbuq0000''\<rparr>)],
          expiresAt = 31\<rparr>],
       topDomain = ''tunnel.example.com'', domains = []\<rparr>"
  unfolding chunkDomains_examples EncodeToString_hi
  by (simp add: handleDomain_def newTunnel_def parse_t0 parse_msg3 assemble_def copyAt_def copy_def)

section \<open>Retransmission\<close>

lemma handleDomain_stored:
  assumes "parseDomain (topDomain tun) domain = Inr fg"
  shows "handleDomain expiration now ordSum ordAsm domain tun =
     (if foldl (\<lambda>n (k, f). n + int (length (data f))) 0
            (ordSum (fragments (stored expiration now fg tun)))
          \<ge> totalSize (stored expiration now fg tun)
      then (case assemble ordAsm (stored expiration now fg tun) of
              Failed err \<Rightarrow> Returned (tun\<lparr>fgLists := (fgLists tun)(fg_id fg \<mapsto> stored expiration now fg tun)\<rparr>)
            | Panicked p \<Rightarrow> Panicked p
            | Returned msg \<Rightarrow> Returned (tun\<lparr>Messages := Messages tun @ [msg],
                                             fgLists := (fgLists tun)(fg_id fg := None)\<rparr>))
      else Returned (tun\<lparr>fgLists := (fgLists tun)(fg_id fg \<mapsto> stored expiration now fg tun)\<rparr>))"
proof -
  have st: "stored expiration now fg tun =
      (case fgLists tun (fg_id fg) of
         None \<Rightarrow> \<lparr>totalSize = 0, fragments = [], expiresAt = now + expiration\<rparr>
       | Some fl \<Rightarrow> fl)\<lparr>totalSize := fg_totalSize fg,
            fragments := AList.update (offset fg) fg
               (fragments (case fgLists tun (fg_id fg) of
                  None \<Rightarrow> \<lparr>totalSize = 0, fragments = [], expiresAt = now + expiration\<rparr>
                | Some fl \<Rightarrow> fl)),
            expiresAt := now + expiration\<rparr>"
    by (simp add: stored_def split: option.splits)
  show ?thesis
    unfolding handleDomain_def assms(1) st[symmetric] Let_def sum.case
    by (auto split: outcome.splits)
qed

lemma assemble_cong:
  "totalSize fl = totalSize fl' \<Longrightarrow> fragments fl = fragments fl' \<Longrightarrow>
     assemble ord fl = assemble ord fl'"
  by (simp add: assemble_def)

lemma stored_sameButExpiry:
  assumes "sameButExpiry t t'"
  shows "totalSize (stored expiration now g t) = totalSize (stored expiration' now' g t')"
    and "fragments (stored expiration now g t) = fragments (stored expiration' now' g t')"
proof -
  from assms have "rel_option (\<lambda>fl fl'. totalSize fl = totalSize fl' \<and> fragments fl = fragments fl')
              (fgLists t (fg_id g)) (fgLists t' (fg_id g))"
    by (simp add: sameButExpiry_def)
  then show "totalSize (stored expiration now g t) = totalSize (stored expiration' now' g t')"
    and "fragments (stored expiration now g t) = fragments (stored expiration' now' g t')"
    by (cases "fgLists t (fg_id g)"; cases "fgLists t' (fg_id g)"; simp add: stored_def)+
qed

lemma handleDomain_sameButExpiry:
  assumes "sameButExpiry t t'"
  shows "rel_outcome sameButExpiry (handleDomain expiration now ordSum ordAsm d t)
           (handleDomain expiration' now' ordSum ordAsm d t')"
proof (cases "parseDomain (topDomain t) d")
  case (Inl err)
  moreover from assms have td: "topDomain t' = topDomain t" by (simp add: sameButExpiry_def)
  ultimately show ?thesis using assms by (simp add: handleDomain_def)
next
  case (Inr g)
  from assms have td: "topDomain t' = topDomain t" by (simp add: sameButExpiry_def)
  with Inr have p': "parseDomain (topDomain t') d = Inr g" by simp
  note s = stored_sameButExpiry[OF assms, of expiration now g expiration' now']
  have a: "assemble ordAsm (stored expiration now g t) = assemble ordAsm (stored expiration' now' g t')"
    using s by (rule assemble_cong)
  have keep: "sameButExpiry (t\<lparr>fgLists := (fgLists t)(fg_id g \<mapsto> stored expiration now g t)\<rparr>)
                 (t'\<lparr>fgLists := (fgLists t')(fg_id g \<mapsto> stored expiration' now' g t')\<rparr>)"
    using assms s by (simp add: sameButExpiry_def)
  have del: "sameButExpiry (t\<lparr>Messages := Messages t @ [msg], fgLists := (fgLists t)(fg_id g := None)\<rparr>)
                 (t'\<lparr>Messages := Messages t' @ [msg], fgLists := (fgLists t')(fg_id g := None)\<rparr>)" for msg
    using assms by (simp add: sameButExpiry_def)
  show ?thesis
    unfolding handleDomain_stored[OF Inr] handleDomain_stored[OF p'] a s
    using keep del by (simp split: outcome.splits)
qed

lemma listenDomains_sameButExpiry:
  "sameButExpiry t t' \<Longrightarrow>
     rel_outcome sameButExpiry (listenDomains expiration rs t) (listenDomains expiration rs t')"
proof (induction rs arbitrary: t t')
  case Nil
  then show ?case by simp
next
  case (Cons r rs)
  obtain now ordSum ordAsm d where r: "r = (now, ordSum, ordAsm, d)" by (cases r)
  from handleDomain_sameButExpiry[OF Cons.prems, of expiration now ordSum ordAsm d expiration now]
  show ?case
    by (cases "handleDomain expiration now ordSum ordAsm d t";
        cases "handleDomain expiration now ordSum ordAsm d t'")
       (simp_all add: r Cons.IH)
qed


lemma handleDomain_duplicate:
  assumes "parseDomain (topDomain tun) d = Inr g"
    and "fgLists tun (fg_id g) = Some fl"
    and "map_of (fragments fl) (offset g) = Some g"
    and "totalSize fl = fg_totalSize g"
    and "dataBytes (fragments fl) < totalSize fl"
    and "is_range_order ordSum"
  shows "handleDomain expiration now ordSum ordAsm d tun =
           Returned (tun\<lparr>fgLists := (fgLists tun)(fg_id g \<mapsto> fl\<lparr>expiresAt := now + expiration\<rparr>)\<rparr>)"
proof -
  have "AList.update (offset g) g (fragments fl) = fragments fl"
    using assms(3) by (rule update_triv)
  then have st: "stored expiration now g tun = fl\<lparr>expiresAt := now + expiration\<rparr>"
    using assms(2,4) by (simp add: stored_def)
  show ?thesis
    unfolding handleDomain_parsed[OF assms(1,6)] st using assms(5) by simp
qed

lemma listenDomains_duplicates:
  assumes "parseDomain (topDomain tun) d = Inr g"
    and "fgLists tun (fg_id g) = Some fl"
    and "map_of (fragments fl) (offset g) = Some g"
    and "totalSize fl = fg_totalSize g"
    and "dataBytes (fragments fl) < totalSize fl"
    and "\<forall>r\<in>set dups. domainOf r = d \<and> fairOrders r"
  shows "\<exists>e. listenDomains expiration dups tun =
               Returned (tun\<lparr>fgLists := (fgLists tun)(fg_id g \<mapsto> fl\<lparr>expiresAt := e\<rparr>)\<rparr>)"
  using assms
proof (induction dups arbitrary: tun fl)
  case Nil
  have "tun\<lparr>fgLists := (fgLists tun)(fg_id g \<mapsto> fl\<lparr>expiresAt := expiresAt fl\<rparr>)\<rparr> = tun"
    using Nil(2) by (simp add: fun_upd_idem)
  then show ?case by (metis listenDomains.simps(1))
next
  case (Cons r dups)
  obtain now ordSum ordAsm d' where r: "r = (now, ordSum, ordAsm, d')" by (cases r)
  with Cons.prems(6) have d': "d' = d" and o: "is_range_order ordSum"
    by (simp_all add: domainOf_def fairOrders_def)
  let ?fl = "fl\<lparr>expiresAt := now + expiration\<rparr>"
  let ?tun = "tun\<lparr>fgLists := (fgLists tun)(fg_id g \<mapsto> ?fl)\<rparr>"
  have step: "handleDomain expiration now ordSum ordAsm d tun = Returned ?tun"
    by (rule handleDomain_duplicate[OF Cons.prems(1,2,3,4,5) o])
  have 1: "parseDomain (topDomain ?tun) d = Inr g" using Cons.prems(1) by simp
  have 2: "fgLists ?tun (fg_id g) = Some ?fl" by simp
  have 3: "map_of (fragments ?fl) (offset g) = Some g" using Cons.prems(3) by simp
  have 4: "totalSize ?fl = fg_totalSize g" using Cons.prems(4) by simp
  have 5: "dataBytes (fragments ?fl) < totalSize ?fl" using Cons.prems(5) by simp
  have 6: "\<forall>r\<in>set dups. domainOf r = d \<and> fairOrders r" using Cons.prems(6) by simp
  from Cons.IH[OF 1 2 3 4 5 6] obtain e where
    "listenDomains expiration dups ?tun =
       Returned (?tun\<lparr>fgLists := (fgLists ?tun)(fg_id g \<mapsto> ?fl\<lparr>expiresAt := e\<rparr>)\<rparr>)"
    by blast
  then have "listenDomains expiration (r # dups) tun =
       Returned (tun\<lparr>fgLists := (fgLists tun)(fg_id g \<mapsto> fl\<lparr>expiresAt := e\<rparr>)\<rparr>)"
    using step by (simp add: r d')
  then show ?case by blast
qed


text \<open>
  Claim C5, amended. Let a fragment be stored in a list that is still in the map after
  some receptions, with the list's \<open>totalSize\<close> the one the fragment declares and
  with fewer stored bytes than \<open>totalSize\<close>. Receiving the same domain again, any
  number of times, sends nothing and changes nothing but the list's \<open>expiresAt\<close>;
  and whatever is received afterwards, the loop ends as it does without the
  repetitions: with the same messages on \<open>Messages\<close> and the same fragments in the
  map (the times \<open>expiresAt\<close> apart), or with the same panic.
\<close>

theorem retransmission_idempotent:
  assumes "listenDomains expiration rs1 tun = Returned t1"
    and "parseDomain (topDomain t1) d = Inr g"
    and "fgLists t1 (fg_id g) = Some fl"
    and "map_of (fragments fl) (offset g) = Some g"
    and "totalSize fl = fg_totalSize g"
    and "dataBytes (fragments fl) < totalSize fl"
    and "\<forall>r\<in>set dups. domainOf r = d \<and> fairOrders r"
  shows "(\<exists>e. listenDomains expiration (rs1 @ dups) tun =
               Returned (t1\<lparr>fgLists := (fgLists t1)(fg_id g \<mapsto> fl\<lparr>expiresAt := e\<rparr>)\<rparr>)) \<and>
         rel_outcome sameButExpiry (listenDomains expiration (rs1 @ dups @ rs2) tun)
                                   (listenDomains expiration (rs1 @ rs2) tun)"
proof -
  from listenDomains_duplicates[OF assms(2-7), of expiration] obtain e where
    e: "listenDomains expiration dups t1 =
          Returned (t1\<lparr>fgLists := (fgLists t1)(fg_id g \<mapsto> fl\<lparr>expiresAt := e\<rparr>)\<rparr>)"
    by blast
  let ?t1' = "t1\<lparr>fgLists := (fgLists t1)(fg_id g \<mapsto> fl\<lparr>expiresAt := e\<rparr>)\<rparr>"
  have "sameButExpiry ?t1' t1"
    using assms(3) by (simp add: sameButExpiry_def option.rel_refl)
  then have "rel_outcome sameButExpiry (listenDomains expiration rs2 ?t1')
               (listenDomains expiration rs2 t1)"
    by (rule listenDomains_sameButExpiry)
  then have "rel_outcome sameButExpiry (listenDomains expiration (rs1 @ dups @ rs2) tun)
               (listenDomains expiration (rs1 @ rs2) tun)"
    by (simp add: listenDomains_append assms(1) e)
  moreover have "listenDomains expiration (rs1 @ dups) tun = Returned ?t1'"
    by (simp add: listenDomains_append assms(1) e)
  ultimately show ?thesis by blast
qed

lemma listenDomains_msg2_first:
  "listenDomains 30 [(0, id, id, ''msg2.8.4.0000.tunnel.example.com'')]
     (newTunnel ''tunnel.example.com'') =
   Returned ((newTunnel ''tunnel.example.com'')\<lparr>fgLists :=
        [''msg2'' \<mapsto> \<lparr>totalSize = 8,
            fragments = [(4, \<lparr>fg_id = ''msg2'', fg_totalSize = 8, offset = 4, data = ''0000''\<rparr>)],
            expiresAt = 30\<rparr>]\<rparr>)"
  by (simp add: handleDomain_def newTunnel_def parse_msg2a)

theorem retransmission_idempotent_witness:
  "domainOf (1, rev, id, ''msg2.8.4.0000.tunnel.example.com'') = ''msg2.8.4.0000.tunnel.example.com'' \<and>
   fairOrders (1, rev, id, ''msg2.8.4.0000.tunnel.example.com'') \<and>
   dataBytes [(4, \<lparr>fg_id = ''msg2'', fg_totalSize = 8, offset = 4, data = ''0000''\<rparr>)] < 8 \<and>
   (\<exists>e. listenDomains 30 ([(0, id, id, ''msg2.8.4.0000.tunnel.example.com'')] @
                           [(1, rev, id, ''msg2.8.4.0000.tunnel.example.com'')])
            (newTunnel ''tunnel.example.com'') =
      Returned ((newTunnel ''tunnel.example.com'')\<lparr>fgLists :=
        [''msg2'' \<mapsto> \<lparr>totalSize = 8,
            fragments = [(4, \<lparr>fg_id = ''msg2'', fg_totalSize = 8, offset = 4, data = ''0000''\<rparr>)],
            expiresAt = e\<rparr>]\<rparr>)) \<and>
   rel_outcome sameButExpiry
     (listenDomains 30 ([(0, id, id, ''msg2.8.4.0000.tunnel.example.com'')] @
                        [(1, rev, id, ''msg2.8.4.0000.tunnel.example.com'')] @
                        [(2, id, id, ''msg2.8.0.nbuq.tunnel.example.com'')])
        (newTunnel ''tunnel.example.com''))
     (listenDomains 30 ([(0, id, id, ''msg2.8.4.0000.tunnel.example.com'')] @
                        [(2, id, id, ''msg2.8.0.nbuq.tunnel.example.com'')])
        (newTunnel ''tunnel.example.com''))"
proof -
  let ?tun = "newTunnel ''tunnel.example.com''"
  let ?g = "\<lparr>fg_id = ''msg2'', fg_totalSize = 8, offset = 4, data = ''0000''\<rparr>"
  let ?fl = "\<lparr>totalSize = 8, fragments = [(4, ?g)], expiresAt = 30\<rparr>"
  let ?t1 = "?tun\<lparr>fgLists := [''msg2'' \<mapsto> ?fl]\<rparr>"
  let ?d = "''msg2.8.4.0000.tunnel.example.com''"
  let ?dups = "[(1, rev, id, ?d)] :: reception list"
  have 1: "listenDomains 30 [(0, id, id, ?d)] ?tun = Returned ?t1"
    by (rule listenDomains_msg2_first)
  have 2: "parseDomain (topDomain ?t1) ?d = Inr ?g"
    by (simp only: newTunnel_def tunnel.simps tunnel.update_convs parse_msg2a)
  have 3: "fgLists ?t1 (fg_id ?g) = Some ?fl" by simp
  have 4: "map_of (fragments ?fl) (offset ?g) = Some ?g" by simp
  have 5: "totalSize ?fl = fg_totalSize ?g" by simp
  have 6: "dataBytes (fragments ?fl) < totalSize ?fl" by (simp add: dataBytes_def)
  have 7: "\<forall>r\<in>set ?dups. domainOf r = ?d \<and> fairOrders r"
    by (simp add: domainOf_def fairOrders_def is_range_order_id is_range_order_rev)
  from retransmission_idempotent[OF 1 2 3 4 5 6 7, of "[(2, id, id, ''msg2.8.0.nbuq.tunnel.example.com'')]"]
  show ?thesis using 6 7 by simp
qed

lemma parse_m_examples:
  "parseDomain ''tunnel.example.com'' ''m.8.0.nbuq.tunnel.example.com'' =
     Inr \<lparr>fg_id = ''m'', fg_totalSize = 8, offset = 0, data = ''nbuq''\<rparr>"
  "parseDomain ''tunnel.example.com'' ''m.100.4.0000.tunnel.example.com'' =
     Inr \<lparr>fg_id = ''m'', fg_totalSize = 100, offset = 4, data = ''0000''\<rparr>"
  "parseDomain ''tunnel.example.com'' ''m.8.4.!!!!.tunnel.example.com'' =
     Inr \<lparr>fg_id = ''m'', fg_totalSize = 8, offset = 4, data = ''!!!!''\<rparr>"
  "parseDomain ''tunnel.example.com'' ''m.8.0.nbuq0000.tunnel.example.com'' =
     Inr \<lparr>fg_id = ''m'', fg_totalSize = 8, offset = 0, data = ''nbuq0000''\<rparr>"
  by (simp_all add: parseDomain_def HasSuffix_def TrimSuffix_def Atoi_def digitVal_def)

lemma DecodeString_garbage: "DecodeString ''nbuq!!!!'' = Inl CorruptInputError"
  by (simp add: DecodeString_def decode.simps decodeMap_def encodeStd_def padChar_def)

theorem retransmission_counterexample:
  "listenDomains 30 [(0, id, id, ''msg1.8.0.nbuq0000.tunnel.example.com''),
                     (1, id, id, ''msg1.8.0.nbuq0000.tunnel.example.com'')]
     (newTunnel ''tunnel.example.com'') =
   Returned \<lparr>Messages = [''hi'', ''hi''], fgLists = Map.empty,
             topDomain = ''tunnel.example.com'', domains = []\<rparr> \<and>
   listenDomains 30 [(0, id, id, ''m.8.0.nbuq.tunnel.example.com''),
                     (1, id, id, ''m.100.4.0000.tunnel.example.com'')]
     (newTunnel ''tunnel.example.com'') =
   Returned \<lparr>Messages = [],
       fgLists = [''m'' \<mapsto> \<lparr>totalSize = 100,
          fragments = [(0, \<lparr>fg_id = ''m'', fg_totalSize = 8, offset = 0, data = ''nbuq''\<rparr>),
                       (4, \<lparr>fg_id = ''m'', fg_totalSize = 100, offset = 4, data = ''0000''\<rparr>)],
          expiresAt = 31\<rparr>],
       topDomain = ''tunnel.example.com'', domains = []\<rparr> \<and>
   listenDomains 30 [(0, id, id, ''m.8.0.nbuq.tunnel.example.com''),
                     (1, id, id, ''m.100.4.0000.tunnel.example.com''),
                     (2, id, id, ''m.8.0.nbuq.tunnel.example.com'')]
     (newTunnel ''tunnel.example.com'') =
   Returned \<lparr>Messages = [''hi''], fgLists = Map.empty,
             topDomain = ''tunnel.example.com'', domains = []\<rparr> \<and>
   listenDomains 30 [(0, id, id, ''m.8.4.!!!!.tunnel.example.com''),
                     (1, id, rev, ''m.8.0.nbuq0000.tunnel.example.com'')]
     (newTunnel ''tunnel.example.com'') =
   Returned \<lparr>Messages = [],
       fgLists = [''m'' \<mapsto> \<lparr>totalSize = 8,
          fragments = [(4, \<lparr>fg_id = ''m'', fg_totalSize = 8, offset = 4, data = ''!!!!''\<rparr>),
                       (0, \<lparr>fg_id = ''m'', fg_totalSize = 8, offset = 0, data = ''nbuq0000''\<rparr>)],
          expiresAt = 31\<rparr>],
       topDomain = ''tunnel.example.com'', domains = []\<rparr> \<and>
   listenDomains 30 [(0, id, id, ''m.8.4.!!!!.tunnel.example.com''),
                     (1, id, rev, ''m.8.0.nbuq0000.tunnel.example.com''),
                     (2, id, id, ''m.8.0.nbuq0000.tunnel.example.com'')]
     (newTunnel ''tunnel.example.com'') =
   Returned \<lparr>Messages = [''hi''], fgLists = Map.empty,
             topDomain = ''tunnel.example.com'', domains = []\<rparr>"
  by (simp add: handleDomain_def newTunnel_def parse_msg1 parse_m_examples assemble_def
      copyAt_def copy_def DecodeString_nbuq DecodeString_garbage)

section \<open>Sizes and offsets that are not negative\<close>

text \<open>
  With a size and offsets that are not negative, \<open>assemble\<close> does not panic: every
  copy starts inside the buffer, whose length stays \<open>totalSize\<close>.
\<close>

lemma assembleLoop_no_panic:
  assumes "\<forall>(k, f)\<in>set xs. 0 \<le> offset f" and "int (length buf) = tsize"
  shows "assembleLoop tsize buf xs \<noteq> Panicked p"
  using assms
proof (induction xs arbitrary: buf)
  case Nil
  then show ?case by simp
next
  case (Cons x xs)
  obtain k f where x: "x = (k, f)" by (cases x)
  show ?case
  proof (cases "offset f \<ge> tsize")
    case True
    then show ?thesis by (simp add: x)
  next
    case False
    with Cons.prems x have o: "0 \<le> offset f" "nat (offset f) \<le> length buf" by auto
    then have "int (length (copyAt buf (nat (offset f)) (data f))) = tsize"
      using Cons.prems(2) by (simp add: length_copyAt)
    moreover from Cons.prems(1) have "\<forall>(k, f)\<in>set xs. 0 \<le> offset f" by simp
    ultimately have "assembleLoop tsize (copyAt buf (nat (offset f)) (data f)) xs \<noteq> Panicked p"
      by (intro Cons.IH)
    then show ?thesis using False o Cons.prems(2) by (simp add: x)
  qed
qed

lemma assemble_no_panic:
  assumes "0 \<le> totalSize fl" and "\<forall>(k, f)\<in>set (fragments fl). 0 \<le> offset f"
    and "is_range_order ord"
  shows "assemble ord fl \<noteq> Panicked p"
proof -
  have "set (ord (fragments fl)) = set (fragments fl)"
    using assms(3) by (metis is_range_order_def set_mset_mset)
  with assms(2) have "\<forall>(k, f)\<in>set (ord (fragments fl)). 0 \<le> offset f" by simp
  from assembleLoop_no_panic[OF this, of "replicate (nat (totalSize fl)) (CHR 0x00)" "totalSize fl" p]
  show ?thesis using assms(1) by (auto simp: assemble_def split: outcome.splits sum.splits)
qed

end
